theory Spec2Isabelle
  imports Main
begin

unbundle bit_operations_syntax

section \<open>Errors and search values\<close>

text \<open>
  The exceptions the game code can raise. \<open>ValueError\<close> is the repository's invalid-action
  error; \<open>IndexError\<close> is what numpy raises for an index outside an axis; \<open>TypeError\<close> is what
  numpy raises when a bitwise reduction is applied to a float array.
\<close>

datatype error = ValueError | IndexError | TypeError

text \<open>
  Search values are Python numbers compared with \<open>-math.inf\<close> and \<open>math.inf\<close>. Utilities are
  the integers \<open>-1\<close>, \<open>0\<close>, \<open>1\<close> (Nim returns the floats \<open>-1.0\<close>, \<open>0.0\<close>, \<open>1.0\<close>, which are
  equal to them under Python's comparison).
\<close>

datatype ext = MInf | Fin int | PInf

instantiation ext :: linorder
begin

fun less_eq_ext :: "ext \<Rightarrow> ext \<Rightarrow> bool" where
  "less_eq_ext MInf _ = True"
| "less_eq_ext _ PInf = True"
| "less_eq_ext (Fin a) (Fin b) = (a \<le> b)"
| "less_eq_ext _ _ = False"

definition less_ext :: "ext \<Rightarrow> ext \<Rightarrow> bool" where
  "less_ext x y = (x \<le> y \<and> \<not> y \<le> x)"

instance
proof
  fix x y z :: ext
  show "(x < y) = (x \<le> y \<and> \<not> y \<le> x)"
    by (simp add: less_ext_def)
  show "x \<le> x"
    by (cases x) simp_all
  show "x \<le> y \<Longrightarrow> y \<le> z \<Longrightarrow> x \<le> z"
    by (cases x; cases y; cases z) simp_all
  show "x \<le> y \<Longrightarrow> y \<le> x \<Longrightarrow> x = y"
    by (cases x; cases y) simp_all
  show "x \<le> y \<or> y \<le> x"
    by (cases x; cases y) auto
qed

end

section \<open>The game abstraction and the session\<close>

text \<open>
  The abstract class \<open>Game\<close>: its abstract methods are the fields of a record of functions,
  one record per concrete game. The method \<open>next\<close> is called \<open>next_state\<close> here. Only
  \<open>next\<close> raises in the concrete games, so only it returns a sum.
\<close>

record ('s, 'a) game =
  initial_state :: "'s"
  actions :: "'s \<Rightarrow> 'a list"
  next_state :: "'s \<Rightarrow> 'a \<Rightarrow> error + 's"
  is_terminal :: "'s \<Rightarrow> bool"
  utility :: "'s \<Rightarrow> int \<Rightarrow> int"
  player :: "'s \<Rightarrow> int"

text \<open>The mutable fields of a \<open>Game\<close> object.\<close>

record 's session =
  state :: "'s"
  current_player :: int

definition initial_player :: int where
  "initial_player = 1"

definition new_session :: "('s, 'a) game \<Rightarrow> 's session" where
  "new_session g = \<lparr>state = initial_state g, current_player = initial_player\<rparr>"

text \<open>
  \<open>Game.move\<close>: the result is the returned state or the exception, paired with the session
  as it is after the call. Both raises happen before the first assignment.
\<close>

definition move :: "('s, 'a) game \<Rightarrow> 's session \<Rightarrow> 'a \<Rightarrow> (error + 's) \<times> 's session" where
  "move g sess action =
     (if action \<notin> set (actions g (state sess)) then (Inl ValueError, sess)
      else (case next_state g (state sess) action of
              Inl e \<Rightarrow> (Inl e, sess)
            | Inr s' \<Rightarrow> (Inr s', sess\<lparr>state := s', current_player := player g s'\<rparr>)))"

definition is_game_over :: "('s, 'a) game \<Rightarrow> 's session \<Rightarrow> bool" where
  "is_game_over g sess = is_terminal g (state sess)"

definition get_winner :: "('s, 'a) game \<Rightarrow> 's session \<Rightarrow> int option" where
  "get_winner g sess =
     (if \<not> is_game_over g sess then None
      else if utility g (state sess) 1 > 0 then Some 1
      else if utility g (state sess) (-1) > 0 then Some (-1)
      else Some 0)"

section \<open>The minimax agent\<close>

record agent =
  player_id :: int
  max_depth :: "int option"

text \<open>
  The cutoff test \<open>self.max_depth and depth >= self.max_depth\<close>: \<open>None\<close> and \<open>0\<close> are both
  falsy in Python.
\<close>

definition cutoff :: "agent \<Rightarrow> int \<Rightarrow> bool" where
  "cutoff ag depth = (case max_depth ag of None \<Rightarrow> False | Some d \<Rightarrow> d \<noteq> 0 \<and> depth \<ge> d)"

text \<open>
  The two \<open>for\<close> statements of \<open>_minimax\<close>, one per kind of ply. \<open>rec\<close> is the
  recursive call on the moved copy, at the next depth and with the other player. A result
  \<open>None\<close> means that the recursion did not return within the fuel.
\<close>

fun max_loop ::
  "('s, 'a) game \<Rightarrow> 's session \<Rightarrow> ('s session \<Rightarrow> ext \<Rightarrow> ext \<Rightarrow> (error + ext) option) \<Rightarrow>
   'a list \<Rightarrow> ext \<Rightarrow> ext \<Rightarrow> ext \<Rightarrow> (error + ext) option" where
  "max_loop g sess rec [] max_eval alpha beta = Some (Inr max_eval)"
| "max_loop g sess rec (action # rest) max_eval alpha beta =
     (case move g sess action of
        (Inl e, _) \<Rightarrow> Some (Inl e)
      | (Inr _, game_copy) \<Rightarrow>
          (case rec game_copy alpha beta of
             None \<Rightarrow> None
           | Some (Inl e) \<Rightarrow> Some (Inl e)
           | Some (Inr eval_score) \<Rightarrow>
               (let max_eval' = max max_eval eval_score;
                    alpha' = max alpha eval_score
                in if beta \<le> alpha' then Some (Inr max_eval')
                   else max_loop g sess rec rest max_eval' alpha' beta)))"

fun min_loop ::
  "('s, 'a) game \<Rightarrow> 's session \<Rightarrow> ('s session \<Rightarrow> ext \<Rightarrow> ext \<Rightarrow> (error + ext) option) \<Rightarrow>
   'a list \<Rightarrow> ext \<Rightarrow> ext \<Rightarrow> ext \<Rightarrow> (error + ext) option" where
  "min_loop g sess rec [] min_eval alpha beta = Some (Inr min_eval)"
| "min_loop g sess rec (action # rest) min_eval alpha beta =
     (case move g sess action of
        (Inl e, _) \<Rightarrow> Some (Inl e)
      | (Inr _, game_copy) \<Rightarrow>
          (case rec game_copy alpha beta of
             None \<Rightarrow> None
           | Some (Inl e) \<Rightarrow> Some (Inl e)
           | Some (Inr eval_score) \<Rightarrow>
               (let min_eval' = min min_eval eval_score;
                    beta' = min beta eval_score
                in if beta' \<le> alpha then Some (Inr min_eval')
                   else min_loop g sess rec rest min_eval' alpha beta')))"

fun minimax ::
  "agent \<Rightarrow> ('s, 'a) game \<Rightarrow> nat \<Rightarrow> 's session \<Rightarrow> int \<Rightarrow> bool \<Rightarrow> ext \<Rightarrow> ext \<Rightarrow>
   (error + ext) option" where
  "minimax ag g 0 sess depth maximizing_player alpha beta = None"
| "minimax ag g (Suc fuel) sess depth maximizing_player alpha beta =
     (if is_game_over g sess \<or> cutoff ag depth
      then Some (Inr (Fin (utility g (state sess) (player_id ag))))
      else if maximizing_player
      then max_loop g sess (\<lambda>c a b. minimax ag g fuel c (depth + 1) False a b)
             (actions g (state sess)) MInf alpha beta
      else min_loop g sess (\<lambda>c a b. minimax ag g fuel c (depth + 1) True a b)
             (actions g (state sess)) PInf alpha beta)"

text \<open>The loop of \<open>choose_action\<close> over the legal actions.\<close>

fun choose_loop ::
  "agent \<Rightarrow> ('s, 'a) game \<Rightarrow> nat \<Rightarrow> 's session \<Rightarrow> 'a list \<Rightarrow> 'a option \<Rightarrow> ext \<Rightarrow>
   (error + 'a option) option" where
  "choose_loop ag g fuel sess [] best_action best_value = Some (Inr best_action)"
| "choose_loop ag g fuel sess (action # rest) best_action best_value =
     (case move g sess action of
        (Inl e, _) \<Rightarrow> Some (Inl e)
      | (Inr _, game_copy) \<Rightarrow>
          (case minimax ag g fuel game_copy 0 False MInf PInf of
             None \<Rightarrow> None
           | Some (Inl e) \<Rightarrow> Some (Inl e)
           | Some (Inr v) \<Rightarrow>
               (if v > best_value then choose_loop ag g fuel sess rest (Some action) v
                else choose_loop ag g fuel sess rest best_action best_value)))"

definition choose_action ::
  "agent \<Rightarrow> ('s, 'a) game \<Rightarrow> nat \<Rightarrow> 's session \<Rightarrow> (error + 'a option) option" where
  "choose_action ag g fuel sess =
     (let acts = actions g (state sess)
      in if acts = [] then Some (Inr None)
         else if length acts = 1 then Some (Inr (Some (acts ! 0)))
         else choose_loop ag g fuel sess acts None MInf)"

section \<open>The Halving game\<close>

text \<open>A state is \<open>(number, current_player)\<close>; an action is a Python string.\<close>

type_synonym halving_state = "int \<times> int"

definition halving_is_terminal :: "halving_state \<Rightarrow> bool" where
  "halving_is_terminal st = (fst st = 0)"

definition halving_actions :: "halving_state \<Rightarrow> string list" where
  "halving_actions st = (if halving_is_terminal st then [] else [''subtract'', ''halve''])"

text \<open>Python's \<open>//\<close> on integers is floor division, as \<open>div\<close> on \<open>int\<close> is.\<close>

definition halving_next :: "halving_state \<Rightarrow> string \<Rightarrow> error + halving_state" where
  "halving_next st action =
     (let number = fst st; cur = snd st
      in if action = ''subtract'' then Inr (number - 1, - cur)
         else if action = ''halve'' then Inr (number div 2, - cur)
         else Inl ValueError)"

definition halving_utility :: "halving_state \<Rightarrow> int \<Rightarrow> int" where
  "halving_utility st pl =
     (if \<not> halving_is_terminal st then 0
      else (let previous_player = - snd st
            in if pl = previous_player then 1 else - 1))"

definition halving_player :: "halving_state \<Rightarrow> int" where
  "halving_player st = snd st"

definition HalvingGame :: "int \<Rightarrow> (halving_state, string) game" where
  "HalvingGame starting_number =
     \<lparr>initial_state = (starting_number, 1),
      actions = halving_actions,
      next_state = halving_next,
      is_terminal = halving_is_terminal,
      utility = halving_utility,
      player = halving_player\<rparr>"

section \<open>numpy operations on integer arrays\<close>

text \<open>
  A two-dimensional integer array is the list of its rows. Arrays built by \<open>np.zeros\<close> and
  changed by item assignment are rectangular; the functions below read inside the shape.
\<close>

type_synonym board = "int list list"

definition np_zeros :: "nat \<Rightarrow> nat \<Rightarrow> board" where
  "np_zeros n m = replicate n (replicate m 0)"

definition ncols :: "board \<Rightarrow> nat" where
  "ncols b = (case b of [] \<Rightarrow> 0 | row # _ \<Rightarrow> length row)"

text \<open>
  An integer index on an axis of length \<open>n\<close>: negative indices count from the end, and an
  index outside \<open>-n .. n-1\<close> raises \<open>IndexError\<close>.
\<close>

definition np_index :: "nat \<Rightarrow> int \<Rightarrow> error + nat" where
  "np_index n i =
     (let j = (if i < 0 then int n + i else i)
      in if 0 \<le> j \<and> j < int n then Inr (nat j) else Inl IndexError)"

definition np_any_zero :: "board \<Rightarrow> bool" where
  "np_any_zero b = list_ex (\<lambda>row. list_ex (\<lambda>x. x = 0) row) b"

text \<open>\<open>np.argwhere(board == 0)\<close>: the coordinates of the zero cells, in row-major order.\<close>

definition np_argwhere_zero :: "board \<Rightarrow> (int \<times> int) list" where
  "np_argwhere_zero b =
     concat (map (\<lambda>r. map (\<lambda>c. (int r, int c))
                          (filter (\<lambda>c. b ! r ! c = 0) [0..<length (b ! r)]))
                 [0..<length b])"

definition np_sum_axis1 :: "board \<Rightarrow> int list" where
  "np_sum_axis1 b = map sum_list b"

definition np_sum_axis0 :: "board \<Rightarrow> int list" where
  "np_sum_axis0 b = map (\<lambda>c. sum_list (map (\<lambda>row. row ! c) b)) [0..<ncols b]"

definition np_trace :: "board \<Rightarrow> int" where
  "np_trace b = sum_list (map (\<lambda>i. b ! i ! i) [0..<min (length b) (ncols b)])"

definition np_fliplr :: "board \<Rightarrow> board" where
  "np_fliplr b = map rev b"

text \<open>The slice \<open>board[r0 : r0 + 4, c0 : c0 + 4]\<close>.\<close>

definition np_window4 :: "board \<Rightarrow> nat \<Rightarrow> nat \<Rightarrow> board" where
  "np_window4 b r0 c0 = map (\<lambda>row. take 4 (drop c0 row)) (take 4 (drop r0 b))"

text \<open>The four groups of line sums that both board games concatenate.\<close>

definition line_sums :: "board \<Rightarrow> int list" where
  "line_sums b = np_sum_axis1 b @ np_sum_axis0 b @ [np_trace b] @ [np_trace (np_fliplr b)]"

section \<open>Tic-Tac-Toe\<close>

type_synonym ttt_state = "board \<times> int"

definition ttt_check_winner :: "board \<Rightarrow> int option" where
  "ttt_check_winner b =
     (let lines = line_sums b
      in if 3 \<in> set lines then Some 1
         else if - 3 \<in> set lines then Some (- 1)
         else None)"

definition ttt_is_terminal :: "ttt_state \<Rightarrow> bool" where
  "ttt_is_terminal st =
     (if ttt_check_winner (fst st) \<noteq> None then True else \<not> np_any_zero (fst st))"

definition ttt_actions :: "ttt_state \<Rightarrow> (int \<times> int) list" where
  "ttt_actions st = (if ttt_is_terminal st then [] else np_argwhere_zero (fst st))"

definition ttt_next :: "ttt_state \<Rightarrow> int \<times> int \<Rightarrow> error + ttt_state" where
  "ttt_next st action =
     (let b = fst st; cur = snd st; row = fst action; col = snd action
      in (case np_index (length b) row of
            Inl e \<Rightarrow> Inl e
          | Inr r \<Rightarrow>
              (case np_index (length (b ! r)) col of
                 Inl e \<Rightarrow> Inl e
               | Inr c \<Rightarrow>
                   (if b ! r ! c \<noteq> 0 then Inl ValueError
                    else Inr (b[r := (b ! r)[c := cur]], - cur)))))"

definition ttt_utility :: "ttt_state \<Rightarrow> int \<Rightarrow> int" where
  "ttt_utility st pl =
     (if \<not> ttt_is_terminal st then 0
      else (case ttt_check_winner (fst st) of
              None \<Rightarrow> 0
            | Some winner \<Rightarrow> if winner = pl then 1 else - 1))"

definition ttt_player :: "ttt_state \<Rightarrow> int" where
  "ttt_player st = snd st"

definition TicTacToeGame :: "(ttt_state, int \<times> int) game" where
  "TicTacToeGame =
     \<lparr>initial_state = (np_zeros 3 3, 1),
      actions = ttt_actions,
      next_state = ttt_next,
      is_terminal = ttt_is_terminal,
      utility = ttt_utility,
      player = ttt_player\<rparr>"

section \<open>Nim\<close>

type_synonym nim_state = "int list \<times> int"

text \<open>
  The actions are built pile by pile over the non-empty piles, the removal counts of one
  pile ascending from \<open>1\<close> to the pile size.
\<close>

definition nim_actions :: "nim_state \<Rightarrow> (int \<times> int) list" where
  "nim_actions st =
     (let piles = fst st
      in concat (map (\<lambda>i. map (\<lambda>k. (int i, k)) [1..piles ! i])
                     (filter (\<lambda>i. piles ! i > 0) [0..<length piles])))"

definition nim_next :: "nim_state \<Rightarrow> int \<times> int \<Rightarrow> error + nim_state" where
  "nim_next st action =
     (let piles = fst st; cur = snd st;
          pile_idx = fst action; objects_to_remove = snd action
      in if pile_idx < 0 \<or> pile_idx \<ge> int (length piles) then Inl ValueError
         else if objects_to_remove < 1 \<or> objects_to_remove > piles ! nat pile_idx
         then Inl ValueError
         else Inr (piles[nat pile_idx := piles ! nat pile_idx - objects_to_remove], - cur))"

definition nim_is_terminal :: "nim_state \<Rightarrow> bool" where
  "nim_is_terminal st = list_all (\<lambda>pile. pile = 0) (fst st)"

definition nim_utility :: "nim_state \<Rightarrow> int \<Rightarrow> int" where
  "nim_utility st pl =
     (if \<not> nim_is_terminal st then 0
      else (let previous_player = - snd st
            in if pl = previous_player then 1 else - 1))"

definition nim_player :: "nim_state \<Rightarrow> int" where
  "nim_player st = snd st"

definition NimGame :: "int list \<Rightarrow> (nim_state, int \<times> int) game" where
  "NimGame piles =
     \<lparr>initial_state = (piles, 1),
      actions = nim_actions,
      next_state = nim_next,
      is_terminal = nim_is_terminal,
      utility = nim_utility,
      player = nim_player\<rparr>"

text \<open>
  \<open>np.array(piles)\<close> on a list of Python integers chooses the element type from the values.
  An integer from \<open>-2^63\<close> to \<open>2^63 - 1\<close> asks for \<open>int64\<close>, one from \<open>2^63\<close> to \<open>2^64 - 1\<close> for
  \<open>uint64\<close>, any other for Python objects. One object makes an array of objects; \<open>int64\<close>
  and \<open>uint64\<close> together are promoted to \<open>float64\<close>; and the array of the empty list is
  \<open>float64\<close> as well.
\<close>

datatype np_dtype = Int64 | UInt64 | Float64 | Object

definition int_dtype :: "int \<Rightarrow> np_dtype" where
  "int_dtype x =
     (if - (2 ^ 63) \<le> x \<and> x < 2 ^ 63 then Int64
      else if 2 ^ 63 \<le> x \<and> x < 2 ^ 64 then UInt64
      else Object)"

definition np_array_dtype :: "int list \<Rightarrow> np_dtype" where
  "np_array_dtype xs =
     (if xs = [] then Float64
      else (let ds = map int_dtype xs
            in if Object \<in> set ds then Object
               else if Int64 \<in> set ds \<and> UInt64 \<in> set ds then Float64
               else if UInt64 \<in> set ds then UInt64
               else Int64))"

text \<open>The value that a signed 64-bit subtraction leaves when it overflows.\<close>

definition wrap_int64 :: "int \<Rightarrow> int" where
  "wrap_int64 v = (v + 2 ^ 63) mod 2 ^ 64 - 2 ^ 63"

text \<open>
  \<open>np.bitwise_xor.reduce(np.array(piles))\<close>. The bitwise reduction raises on a \<open>float64\<close>
  array. On the other element types the exclusive or of the elements stays in the range of
  the type, so it is the exclusive or of the integers.
\<close>

definition get_nim_sum :: "nim_state \<Rightarrow> error + int" where
  "get_nim_sum st =
     (case fst st of
        [] \<Rightarrow> Inl TypeError
      | p # ps \<Rightarrow>
          if np_array_dtype (p # ps) = Float64 then Inl TypeError
          else Inr (fold (\<lambda>x acc. acc XOR x) ps p))"

text \<open>\<open>np.argmax\<close> on a boolean array: the index of the first \<open>True\<close>, and \<open>0\<close> without one.\<close>

fun np_argmax :: "bool list \<Rightarrow> nat" where
  "np_argmax [] = 0"
| "np_argmax (x # xs) = (if x then 0 else if True \<in> set xs then Suc (np_argmax xs) else 0)"

text \<open>
  The subtraction of the target from its pile is done in the element type of the array: it
  wraps on \<open>int64\<close>, cannot underflow on \<open>uint64\<close> because the target is below the pile,
  and is exact on Python objects.
\<close>

definition get_optimal_move :: "nim_state \<Rightarrow> error + (int \<times> int) option" where
  "get_optimal_move st =
     (case get_nim_sum st of
        Inl e \<Rightarrow> Inl e
      | Inr nim_sum \<Rightarrow>
          if nim_sum = 0 then Inr None
          else (let piles = fst st;
                    targets = map (\<lambda>s. s XOR nim_sum) piles;
                    valid_moves = map (\<lambda>(t, s). t < s) (zip targets piles)
                in if True \<in> set valid_moves
                   then (let pile_idx = np_argmax valid_moves;
                             target = targets ! pile_idx;
                             objects_to_remove =
                               (if np_array_dtype piles = Int64
                                then wrap_int64 (piles ! pile_idx - target)
                                else piles ! pile_idx - target)
                         in Inr (Some (int pile_idx, objects_to_remove)))
                   else Inr None))"

section \<open>Connect Four\<close>

type_synonym c4_state = "board \<times> int"

definition check_4x4_winner :: "board \<Rightarrow> int option" where
  "check_4x4_winner board_4x4 =
     (let lines = line_sums board_4x4
      in if 4 \<in> set lines then Some 1
         else if - 4 \<in> set lines then Some (- 1)
         else None)"

text \<open>
  The search over the sub-windows of the 5x5 board, in the order of the two nested \<open>for\<close> statements;
  it returns at the first window that has a winner.
\<close>

fun first_window_winner :: "board \<Rightarrow> (nat \<times> nat) list \<Rightarrow> int option" where
  "first_window_winner b [] = None"
| "first_window_winner b ((row_offset, col_offset) # rest) =
     (case check_4x4_winner (np_window4 b row_offset col_offset) of
        Some winner \<Rightarrow> Some winner
      | None \<Rightarrow> first_window_winner b rest)"

definition c4_check_winner :: "nat \<Rightarrow> board \<Rightarrow> int option" where
  "c4_check_winner board_size b =
     (if board_size = 4 then check_4x4_winner b
      else if board_size = 5
      then first_window_winner b
             (concat (map (\<lambda>row_offset. map (\<lambda>col_offset. (row_offset, col_offset)) [0..<2])
                          [0..<2]))
      else None)"

definition c4_is_terminal :: "nat \<Rightarrow> c4_state \<Rightarrow> bool" where
  "c4_is_terminal board_size st =
     (if c4_check_winner board_size (fst st) \<noteq> None then True else \<not> np_any_zero (fst st))"

definition c4_actions :: "nat \<Rightarrow> c4_state \<Rightarrow> int list" where
  "c4_actions board_size st =
     (if c4_is_terminal board_size st then []
      else map int (filter (\<lambda>c. fst st ! 0 ! c = 0) [0..<ncols (fst st)]))"

definition c4_next :: "nat \<Rightarrow> c4_state \<Rightarrow> int \<Rightarrow> error + c4_state" where
  "c4_next board_size st action =
     (let b = fst st; cur = snd st
      in if action < 0 \<or> action \<ge> int board_size then Inl ValueError
         else if b ! 0 ! nat action \<noteq> 0 then Inl ValueError
         else (let empty_positions = filter (\<lambda>r. b ! r ! nat action = 0) [0..<length b];
                   new_board =
                     (if length empty_positions > 0
                      then (let r = last empty_positions
                            in b[r := (b ! r)[nat action := cur]])
                      else b)
               in Inr (new_board, - cur)))"

definition c4_utility :: "nat \<Rightarrow> c4_state \<Rightarrow> int \<Rightarrow> int" where
  "c4_utility board_size st pl =
     (if \<not> c4_is_terminal board_size st then 0
      else (case c4_check_winner board_size (fst st) of
              None \<Rightarrow> 0
            | Some winner \<Rightarrow> if winner = pl then 1 else - 1))"

definition c4_player :: "c4_state \<Rightarrow> int" where
  "c4_player st = snd st"

text \<open>The methods of a Connect Four object whose \<open>board_size\<close> field is the argument.\<close>

definition connectfour_game :: "nat \<Rightarrow> (c4_state, int) game" where
  "connectfour_game board_size =
     \<lparr>initial_state = (np_zeros board_size board_size, 1),
      actions = c4_actions board_size,
      next_state = c4_next board_size,
      is_terminal = c4_is_terminal board_size,
      utility = c4_utility board_size,
      player = c4_player\<rparr>"


section \<open>Playing a game\<close>

text \<open>Applying a sequence of actions through \<open>move\<close>; the first exception ends the run.\<close>

fun run_moves :: "('s, 'a) game \<Rightarrow> 's session \<Rightarrow> 'a list \<Rightarrow> error + 's session" where
  "run_moves g sess [] = Inr sess"
| "run_moves g sess (action # rest) =
     (case move g sess action of
        (Inl e, _) \<Rightarrow> Inl e
      | (Inr _, sess') \<Rightarrow> run_moves g sess' rest)"

text \<open>The states that legal moves reach from the initial state.\<close>

inductive reachable :: "('s, 'a) game \<Rightarrow> 's \<Rightarrow> bool" for g :: "('s, 'a) game" where
  reachable_initial: "reachable g (initial_state g)"
| reachable_step:
    "reachable g s \<Longrightarrow> action \<in> set (actions g s) \<Longrightarrow> next_state g s action = Inr s' \<Longrightarrow>
     reachable g s'"

text \<open>
  The objects remaining in a state: the number of the Halving game, the empty cells of a
  board, the pile total of Nim.
\<close>

definition halving_remaining :: "halving_state \<Rightarrow> nat" where
  "halving_remaining st = nat (fst st)"

definition empty_cells :: "board \<times> int \<Rightarrow> nat" where
  "empty_cells st = sum_list (map (\<lambda>row. length (filter (\<lambda>x. x = 0) row)) (fst st))"


text \<open>
  A game is well behaved on the states that satisfy \<open>Inv\<close> when every legal action there has
  a successor that satisfies \<open>Inv\<close> again and has fewer objects remaining, and when a state
  that is not terminal has a legal action.
\<close>

definition well_behaved :: "('s, 'a) game \<Rightarrow> ('s \<Rightarrow> bool) \<Rightarrow> ('s \<Rightarrow> nat) \<Rightarrow> bool" where
  "well_behaved g Inv remaining =
     (\<forall>s. Inv s \<longrightarrow>
        (\<not> is_terminal g s \<longrightarrow> actions g s \<noteq> []) \<and>
        (\<forall>a \<in> set (actions g s).
           \<exists>s'. next_state g s a = Inr s' \<and> Inv s' \<and> remaining s' < remaining s))"

section \<open>Minimax without pruning\<close>

text \<open>
  The search as the specification describes it with pruning disabled: the utility at a
  terminal state or at the depth bound, and otherwise the maximum or the minimum of the
  values of all successors, by ply. The first successor that fails or does not return
  decides the result.
\<close>

fun sequence_results :: "(error + 'v) option list \<Rightarrow> (error + 'v list) option" where
  "sequence_results [] = Some (Inr [])"
| "sequence_results (r # rs) =
     (case r of
        None \<Rightarrow> None
      | Some (Inl e) \<Rightarrow> Some (Inl e)
      | Some (Inr v) \<Rightarrow>
          (case sequence_results rs of
             None \<Rightarrow> None
           | Some (Inl e) \<Rightarrow> Some (Inl e)
           | Some (Inr vs) \<Rightarrow> Some (Inr (v # vs))))"

definition on_copy ::
  "('s, 'a) game \<Rightarrow> 's session \<Rightarrow> ('s session \<Rightarrow> (error + 'v) option) \<Rightarrow> 'a \<Rightarrow>
   (error + 'v) option" where
  "on_copy g sess f action =
     (case move g sess action of
        (Inl e, _) \<Rightarrow> Some (Inl e)
      | (Inr _, game_copy) \<Rightarrow> f game_copy)"

fun unpruned_minimax ::
  "agent \<Rightarrow> ('s, 'a) game \<Rightarrow> nat \<Rightarrow> 's session \<Rightarrow> int \<Rightarrow> bool \<Rightarrow> (error + ext) option" where
  "unpruned_minimax ag g 0 sess depth maximizing_player = None"
| "unpruned_minimax ag g (Suc fuel) sess depth maximizing_player =
     (if is_game_over g sess \<or> cutoff ag depth
      then Some (Inr (Fin (utility g (state sess) (player_id ag))))
      else (case sequence_results
                   (map (on_copy g sess
                           (\<lambda>c. unpruned_minimax ag g fuel c (depth + 1) (\<not> maximizing_player)))
                        (actions g (state sess))) of
              None \<Rightarrow> None
            | Some (Inl e) \<Rightarrow> Some (Inl e)
            | Some (Inr vs) \<Rightarrow>
                Some (Inr (if maximizing_player then fold max vs MInf else fold min vs PInf))))"

text \<open>The first action, in the order of the list, whose value is the greatest of the list.\<close>

definition first_best :: "('a \<times> ext) list \<Rightarrow> 'a option" where
  "first_best avs =
     (case avs of
        [] \<Rightarrow> None
      | (a, v) # rest \<Rightarrow>
          (let m = fold max (map snd rest) v
           in map_option fst (find (\<lambda>av. snd av = m) avs)))"

definition unpruned_choice ::
  "agent \<Rightarrow> ('s, 'a) game \<Rightarrow> nat \<Rightarrow> 's session \<Rightarrow> (error + 'a option) option" where
  "unpruned_choice ag g fuel sess =
     (let acts = actions g (state sess)
      in (case sequence_results
                 (map (on_copy g sess (\<lambda>c. unpruned_minimax ag g fuel c 0 False)) acts) of
            None \<Rightarrow> None
          | Some (Inl e) \<Rightarrow> Some (Inl e)
          | Some (Inr vs) \<Rightarrow> Some (Inr (first_best (zip acts vs)))))"

section \<open>Lines of a board\<close>

text \<open>
  The straight segments of \<open>len\<close> consecutive cells of an \<open>n\<close> by \<open>n\<close> board: horizontal,
  vertical, and along the two diagonal directions. A player owns a line when all its cells
  hold the player's number.
\<close>

definition segments :: "nat \<Rightarrow> nat \<Rightarrow> (nat \<times> nat) list list" where
  "segments n len =
     concat (map (\<lambda>r. concat (map (\<lambda>c.
        (if c + len \<le> n then [map (\<lambda>i. (r, c + i)) [0..<len]] else []) @
        (if r + len \<le> n then [map (\<lambda>i. (r + i, c)) [0..<len]] else []) @
        (if r + len \<le> n \<and> c + len \<le> n
         then [map (\<lambda>i. (r + i, c + i)) [0..<len],
               map (\<lambda>i. (r + i, c + len - 1 - i)) [0..<len]]
         else [])) [0..<n])) [0..<n])"

definition owns_line :: "board \<Rightarrow> int \<Rightarrow> (nat \<times> nat) list \<Rightarrow> bool" where
  "owns_line b p line = list_all (\<lambda>rc. b ! fst rc ! snd rc = p) line"

definition has_line :: "nat \<Rightarrow> nat \<Rightarrow> board \<Rightarrow> int \<Rightarrow> bool" where
  "has_line n len b p = list_ex (owns_line b p) (segments n len)"

text \<open>
  What a search with the window \<open>(a, b)\<close> may return for a position whose full minimax value
  is \<open>m\<close>: the value itself inside the window, and a bound on the side of the value outside.
\<close>

definition within_window :: "ext \<Rightarrow> ext \<Rightarrow> ext \<Rightarrow> ext \<Rightarrow> bool" where
  "within_window a b m v = ((v \<le> a \<longrightarrow> m \<le> v) \<and> (a < v \<and> v < b \<longrightarrow> v = m) \<and> (b \<le> v \<longrightarrow> v \<le> m))"

section \<open>Invariants of the board games\<close>

text \<open>
  A board is square of size \<open>n\<close>; its pieces are settled when no piece has an empty cell
  below it in its column, as pieces dropped into columns are.
\<close>

definition wf_board :: "nat \<Rightarrow> board \<Rightarrow> bool" where
  "wf_board n b = (length b = n \<and> (\<forall>row \<in> set b. length row = n))"

definition settled :: "board \<Rightarrow> bool" where
  "settled b = (\<forall>r c. Suc r < length b \<and> c < ncols b \<and> b ! r ! c \<noteq> 0 \<longrightarrow> b ! Suc r ! c \<noteq> 0)"

definition c4_inv :: "nat \<Rightarrow> c4_state \<Rightarrow> bool" where
  "c4_inv n st = (wf_board n (fst st) \<and> settled (fst st) \<and> snd st \<noteq> 0)"

text \<open>The exclusive or of all numbers of a list, \<open>0\<close> for the empty list.\<close>

definition xor_all :: "int list \<Rightarrow> int" where
  "xor_all xs = fold (\<lambda>x acc. acc XOR x) xs 0"

text \<open>
  Every cell of a board holds \<open>0\<close>, \<open>1\<close> or \<open>-1\<close>. A board game state is sound when its board
  is square of size \<open>n\<close> with such cells, its player is \<open>1\<close> or \<open>-1\<close>, and at most one of the
  two players owns a line of length \<open>len\<close>.
\<close>

definition cells_ok :: "board \<Rightarrow> bool" where
  "cells_ok b = (\<forall>row \<in> set b. \<forall>x \<in> set row. x = 0 \<or> x = 1 \<or> x = - 1)"

definition board_inv :: "nat \<Rightarrow> nat \<Rightarrow> board \<times> int \<Rightarrow> bool" where
  "board_inv n len st =
     (wf_board n (fst st) \<and> cells_ok (fst st) \<and> (snd st = 1 \<or> snd st = - 1) \<and>
      \<not> (has_line n len (fst st) 1 \<and> has_line n len (fst st) (- 1)))"

section \<open>The depth bound of the search\<close>





section \<open>Order facts about search values\<close>

lemma MInf_le [simp]: "MInf \<le> x"
  by (cases x) simp_all

lemma le_PInf [simp]: "x \<le> PInf"
  by (cases x) simp_all

lemma le_MInf_iff [simp]: "x \<le> MInf \<longleftrightarrow> x = MInf"
  by (cases x) simp_all

lemma PInf_le_iff [simp]: "PInf \<le> x \<longleftrightarrow> x = PInf"
  by (cases x) simp_all

lemma Fin_le_iff [simp]: "Fin a \<le> Fin b \<longleftrightarrow> a \<le> b"
  by simp

lemma Fin_less_iff [simp]: "Fin a < Fin b \<longleftrightarrow> a < b"
  by (auto simp: less_ext_def)

lemma MInf_less_iff [simp]: "MInf < x \<longleftrightarrow> x \<noteq> MInf"
  by (cases x) (simp_all add: less_ext_def)

lemma less_PInf_iff [simp]: "x < PInf \<longleftrightarrow> x \<noteq> PInf"
  by (cases x) (simp_all add: less_ext_def)

lemma not_less_MInf [simp]: "\<not> x < MInf"
  by (simp add: less_ext_def)

lemma not_PInf_less [simp]: "\<not> PInf < x"
  by (simp add: less_ext_def)

lemma max_MInf [simp]: "max MInf x = x" "max x MInf = x"
  by (simp_all add: max_def)

lemma min_PInf [simp]: "min PInf x = x" "min x PInf = x"
  by (simp_all add: min_def)

lemma fold_max_ext: "fold max xs (a::ext) = max a (fold max xs MInf)"
proof (induction xs arbitrary: a)
  case Nil
  show ?case by simp
next
  case (Cons x xs)
  have "fold max (x # xs) a = max (max x a) (fold max xs MInf)"
    using Cons.IH [of "max x a"] by simp
  also have "\<dots> = max a (max x (fold max xs MInf))"
    by (simp add: max.assoc max.commute)
  also have "max x (fold max xs MInf) = fold max (x # xs) MInf"
    using Cons.IH [of x] by simp
  finally show ?case .
qed

lemma fold_min_ext: "fold min xs (a::ext) = min a (fold min xs PInf)"
proof (induction xs arbitrary: a)
  case Nil
  show ?case by simp
next
  case (Cons x xs)
  have "fold min (x # xs) a = min (min x a) (fold min xs PInf)"
    using Cons.IH [of "min x a"] by simp
  also have "\<dots> = min a (min x (fold min xs PInf))"
    by (simp add: min.assoc min.commute)
  also have "min x (fold min xs PInf) = fold min (x # xs) PInf"
    using Cons.IH [of x] by simp
  finally show ?case .
qed

section \<open>The pruned search against the full search\<close>

lemma sequence_results_Cons:
  "sequence_results (r # rs) = Some (Inr ws) \<longleftrightarrow>
     (\<exists>v vs. r = Some (Inr v) \<and> sequence_results rs = Some (Inr vs) \<and> ws = v # vs)"
  by (auto split: option.splits sum.splits)

lemma on_copy_ok:
  "on_copy g sess f a = Some (Inr m) \<Longrightarrow>
     \<exists>s' c. move g sess a = (Inr s', c) \<and> f c = Some (Inr m)"
  by (auto simp: on_copy_def split: prod.splits sum.splits)

lemma max_loop_window:
  assumes rec: "\<And>c m a b. f c = Some (Inr m) \<Longrightarrow> a < b \<Longrightarrow>
                  \<exists>v. rec c a b = Some (Inr v) \<and> within_window a b m v"
  shows "sequence_results (map (on_copy g sess f) acts) = Some (Inr ms) \<Longrightarrow>
         me \<le> a \<Longrightarrow> a < b \<Longrightarrow>
         \<exists>R. max_loop g sess rec acts me a b = Some (Inr R) \<and> me \<le> R \<and>
             within_window a b (fold max ms MInf) R"
proof (induction acts arbitrary: ms me a)
  case Nil
  then show ?case by (auto simp: within_window_def)
next
  case (Cons x acts)
  from Cons.prems(1) obtain m ms' where
    m: "on_copy g sess f x = Some (Inr m)" and
    ms': "sequence_results (map (on_copy g sess f) acts) = Some (Inr ms')" and
    ms: "ms = m # ms'"
    by (auto simp: sequence_results_Cons simp del: sequence_results.simps)
  from on_copy_ok [OF m] obtain s' c where
    mv: "move g sess x = (Inr s', c)" and fc: "f c = Some (Inr m)"
    by blast
  from rec [OF fc \<open>a < b\<close>] obtain v where
    v: "rec c a b = Some (Inr v)" and w: "within_window a b m v"
    by blast
  define K where "K = fold max ms' MInf"
  have M: "fold max ms MInf = max m K"
    using fold_max_ext [of ms' m] by (simp add: ms K_def)
  show ?case
  proof (cases "b \<le> max a v")
    case True
    then have bv: "b \<le> v" using \<open>a < b\<close> by (auto simp: max_def split: if_splits)
    then have mev: "max me v = v" using Cons.prems(2,3) by (auto simp: max_def)
    have vm: "v \<le> m" using w bv by (simp add: within_window_def)
    have loop: "max_loop g sess rec (x # acts) me a b = Some (Inr v)"
      using mv v True mev by (simp add: Let_def)
    have "within_window a b (max m K) v"
      using bv vm \<open>a < b\<close> unfolding within_window_def by (auto simp: max_def)
    moreover have "me \<le> v" using mev by (simp add: max_def split: if_splits)
    ultimately show ?thesis
      using loop by (simp add: M)
  next
    case False
    then have lt: "max a v < b" by (simp add: not_le)
    have le: "max me v \<le> max a v" using Cons.prems(2) by (auto simp: max_def)
    from Cons.IH [OF ms' le lt] obtain R where
      R: "max_loop g sess rec acts (max me v) (max a v) b = Some (Inr R)" and
      meR: "max me v \<le> R" and
      wR: "within_window (max a v) b K R"
      by (auto simp: K_def)
    have loop: "max_loop g sess rec (x # acts) me a b = Some (Inr R)"
      using mv v False R by (simp add: Let_def)
    have "within_window a b (max m K) R"
      using w wR meR lt Cons.prems(2,3)
      unfolding within_window_def
      by (auto simp: max_def split: if_splits)
    moreover have "me \<le> R" using meR by simp
    ultimately show ?thesis
      using loop by (simp add: M)
  qed
qed

lemma min_loop_window:
  assumes rec: "\<And>c m a b. f c = Some (Inr m) \<Longrightarrow> a < b \<Longrightarrow>
                  \<exists>v. rec c a b = Some (Inr v) \<and> within_window a b m v"
  shows "sequence_results (map (on_copy g sess f) acts) = Some (Inr ms) \<Longrightarrow>
         b \<le> me \<Longrightarrow> a < b \<Longrightarrow>
         \<exists>R. min_loop g sess rec acts me a b = Some (Inr R) \<and> R \<le> me \<and>
             within_window a b (fold min ms PInf) R"
proof (induction acts arbitrary: ms me b)
  case Nil
  then show ?case by (auto simp: within_window_def)
next
  case (Cons x acts)
  from Cons.prems(1) obtain m ms' where
    m: "on_copy g sess f x = Some (Inr m)" and
    ms': "sequence_results (map (on_copy g sess f) acts) = Some (Inr ms')" and
    ms: "ms = m # ms'"
    by (auto simp: sequence_results_Cons simp del: sequence_results.simps)
  from on_copy_ok [OF m] obtain s' c where
    mv: "move g sess x = (Inr s', c)" and fc: "f c = Some (Inr m)"
    by blast
  from rec [OF fc \<open>a < b\<close>] obtain v where
    v: "rec c a b = Some (Inr v)" and w: "within_window a b m v"
    by blast
  define K where "K = fold min ms' PInf"
  have M: "fold min ms PInf = min m K"
    using fold_min_ext [of ms' m] by (simp add: ms K_def)
  show ?case
  proof (cases "min b v \<le> a")
    case True
    then have va: "v \<le> a" using \<open>a < b\<close> by (auto simp: min_def split: if_splits)
    then have mev: "min me v = v" using Cons.prems(2,3) by (auto simp: min_def)
    have vm: "m \<le> v" using w va by (simp add: within_window_def)
    have loop: "min_loop g sess rec (x # acts) me a b = Some (Inr v)"
      using mv v True mev by (simp add: Let_def)
    have "within_window a b (min m K) v"
      using va vm \<open>a < b\<close> unfolding within_window_def by (auto simp: min_def)
    moreover have "v \<le> me" using mev by (simp add: min_def split: if_splits)
    ultimately show ?thesis
      using loop by (simp add: M)
  next
    case False
    then have lt: "a < min b v" by (simp add: not_le)
    have le: "min b v \<le> min me v" using Cons.prems(2) by (auto simp: min_def)
    from Cons.IH [OF ms' le lt] obtain R where
      R: "min_loop g sess rec acts (min me v) a (min b v) = Some (Inr R)" and
      meR: "R \<le> min me v" and
      wR: "within_window a (min b v) K R"
      by (auto simp: K_def)
    have loop: "min_loop g sess rec (x # acts) me a b = Some (Inr R)"
      using mv v False R by (simp add: Let_def)
    have "within_window a b (min m K) R"
      using w wR meR lt Cons.prems(2,3)
      unfolding within_window_def
      by (auto simp: min_def split: if_splits)
    moreover have "R \<le> me" using meR by simp
    ultimately show ?thesis
      using loop by (simp add: M)
  qed
qed

lemma minimax_within_window:
  "unpruned_minimax ag g fuel sess depth mp = Some (Inr m) \<Longrightarrow> a < b \<Longrightarrow>
     \<exists>v. minimax ag g fuel sess depth mp a b = Some (Inr v) \<and> within_window a b m v"
proof (induction fuel arbitrary: sess depth mp m a b)
  case 0
  then show ?case by simp
next
  case (Suc fuel)
  show ?case
  proof (cases "is_game_over g sess \<or> cutoff ag depth")
    case True
    then show ?thesis
      using Suc.prems by (auto simp: within_window_def)
  next
    case False
    let ?f = "\<lambda>c. unpruned_minimax ag g fuel c (depth + 1) (\<not> mp)"
    from Suc.prems(1) False obtain ms where
      ms: "sequence_results (map (on_copy g sess ?f) (actions g (state sess))) = Some (Inr ms)"
      and m: "m = (if mp then fold max ms MInf else fold min ms PInf)"
      by (auto split: option.splits sum.splits)
    have rec: "\<And>c m a b. ?f c = Some (Inr m) \<Longrightarrow> a < b \<Longrightarrow>
       \<exists>v. minimax ag g fuel c (depth + 1) (\<not> mp) a b = Some (Inr v) \<and> within_window a b m v"
      using Suc.IH by blast
    show ?thesis
    proof (cases mp)
      case True
      from max_loop_window [where f = ?f and rec = "\<lambda>c a b. minimax ag g fuel c (depth + 1) False a b",
          OF _ ms _ \<open>a < b\<close>, of MInf] rec True
      show ?thesis using False m by auto
    next
      case mpF: False
      from min_loop_window [where f = ?f and rec = "\<lambda>c a b. minimax ag g fuel c (depth + 1) True a b",
          OF _ ms _ \<open>a < b\<close>, of PInf] rec mpF
      show ?thesis using False m by auto
    qed
  qed
qed

lemma minimax_full_window:
  assumes "unpruned_minimax ag g fuel sess depth mp = Some (Inr m)"
  shows "minimax ag g fuel sess depth mp MInf PInf = Some (Inr m)"
proof -
  from minimax_within_window [OF assms, of MInf PInf] obtain v where
    v: "minimax ag g fuel sess depth mp MInf PInf = Some (Inr v)" and
    w: "within_window MInf PInf m v"
    by auto
  have "v = m"
    using w by (cases v; cases m) (auto simp: within_window_def)
  then show ?thesis using v by simp
qed

lemma fold_max_Fin:
  "vs \<noteq> [] \<Longrightarrow> \<forall>v \<in> set vs. \<exists>i. v = Fin i \<Longrightarrow> \<exists>i. fold max vs MInf = Fin i"
proof (induction vs)
  case Nil
  then show ?case by simp
next
  case (Cons v vs)
  then obtain i where i: "v = Fin i" by auto
  show ?case
  proof (cases "vs = []")
    case True
    then show ?thesis using i by simp
  next
    case False
    with Cons obtain j where "fold max vs MInf = Fin j" by auto
    then have "fold max (v # vs) MInf = max (Fin i) (Fin j)"
      using fold_max_ext [of vs v] i by simp
    moreover have "\<exists>k. max (Fin i) (Fin j) = Fin k"
      by (simp add: max_def)
    ultimately show ?thesis by metis
  qed
qed

lemma fold_min_Fin:
  "vs \<noteq> [] \<Longrightarrow> \<forall>v \<in> set vs. \<exists>i. v = Fin i \<Longrightarrow> \<exists>i. fold min vs PInf = Fin i"
proof (induction vs)
  case Nil
  then show ?case by simp
next
  case (Cons v vs)
  then obtain i where i: "v = Fin i" by auto
  show ?case
  proof (cases "vs = []")
    case True
    then show ?thesis using i by simp
  next
    case False
    with Cons obtain j where "fold min vs PInf = Fin j" by auto
    then have "fold min (v # vs) PInf = min (Fin i) (Fin j)"
      using fold_min_ext [of vs v] i by simp
    moreover have "\<exists>k. min (Fin i) (Fin j) = Fin k"
      by (simp add: min_def)
    ultimately show ?thesis by metis
  qed
qed

lemma sequence_results_all_ok:
  "\<forall>x \<in> set xs. \<exists>i. h x = Some (Inr (Fin i)) \<Longrightarrow>
     \<exists>vs. sequence_results (map h xs) = Some (Inr vs) \<and> length vs = length xs \<and>
          (\<forall>v \<in> set vs. \<exists>i. v = Fin i)"
proof (induction xs)
  case Nil
  show ?case by simp
next
  case (Cons x xs)
  then obtain i where i: "h x = Some (Inr (Fin i))" by auto
  from Cons obtain vs where "sequence_results (map h xs) = Some (Inr vs)"
    "length vs = length xs" "\<forall>v \<in> set vs. \<exists>i. v = Fin i" by auto
  then show ?case using i by simp
qed

lemma well_behaved_move:
  assumes "well_behaved g Inv remaining" "Inv (state sess)" "a \<in> set (actions g (state sess))"
  shows "\<exists>s'. move g sess a = (Inr s', sess\<lparr>state := s', current_player := player g s'\<rparr>) \<and>
              next_state g (state sess) a = Inr s' \<and> Inv s' \<and> remaining s' < remaining (state sess)"
  using assms unfolding well_behaved_def move_def by fastforce

lemma unpruned_minimax_total:
  assumes wb: "well_behaved g Inv remaining"
  shows "Inv (state sess) \<Longrightarrow> remaining (state sess) < fuel \<Longrightarrow>
         \<exists>i. unpruned_minimax ag g fuel sess depth mp = Some (Inr (Fin i))"
proof (induction fuel arbitrary: sess depth mp)
  case 0
  then show ?case by simp
next
  case (Suc fuel)
  show ?case
  proof (cases "is_game_over g sess \<or> cutoff ag depth")
    case True
    then show ?thesis by simp
  next
    case False
    let ?f = "\<lambda>c. unpruned_minimax ag g fuel c (depth + 1) (\<not> mp)"
    let ?acts = "actions g (state sess)"
    have ne: "?acts \<noteq> []"
      using wb Suc.prems(1) False by (auto simp: well_behaved_def is_game_over_def)
    have "\<forall>a \<in> set ?acts. \<exists>i. on_copy g sess ?f a = Some (Inr (Fin i))"
    proof
      fix a assume a: "a \<in> set ?acts"
      from well_behaved_move [OF wb Suc.prems(1) a] obtain s' where
        mv: "move g sess a = (Inr s', sess\<lparr>state := s', current_player := player g s'\<rparr>)"
        and inv: "Inv s'" and less: "remaining s' < remaining (state sess)"
        by blast
      have "remaining s' < fuel" using less Suc.prems(2) by simp
      with Suc.IH [of "sess\<lparr>state := s', current_player := player g s'\<rparr>"] inv
      show "\<exists>i. on_copy g sess ?f a = Some (Inr (Fin i))"
        by (simp add: on_copy_def mv)
    qed
    from sequence_results_all_ok [OF this] obtain vs where
      vs: "sequence_results (map (on_copy g sess ?f) ?acts) = Some (Inr vs)"
      and len: "length vs = length ?acts" and fin: "\<forall>v \<in> set vs. \<exists>i. v = Fin i"
      by blast
    have "vs \<noteq> []" using ne len by auto
    from fold_max_Fin [OF this fin] fold_min_Fin [OF this fin]
    show ?thesis using False vs by auto
  qed
qed

lemma first_best_Cons:
  "first_best ((a, v) # rest)
     = map_option fst (find (\<lambda>av. snd av = max v (fold max (map snd rest) MInf)) ((a, v) # rest))"
  unfolding first_best_def using fold_max_ext [of "map snd rest" v]
  by (simp del: find.simps)

lemma first_best_step:
  "first_best ((a0, v0) # (a, v) # rest)
     = (if v0 < v then first_best ((a, v) # rest) else first_best ((a0, v0) # rest))"
proof -
  define K where "K = fold max (map snd rest) MInf"
  have k: "fold max (map snd ((a, v) # rest)) MInf = max v K"
    using fold_max_ext [of "map snd rest" v] by (simp add: K_def)
  have l: "first_best ((a0, v0) # (a, v) # rest)
     = map_option fst (find (\<lambda>av. snd av = max v0 (max v K)) ((a0, v0) # (a, v) # rest))"
    by (simp only: first_best_Cons k)
  have r1: "first_best ((a, v) # rest)
     = map_option fst (find (\<lambda>av. snd av = max v K) ((a, v) # rest))"
    by (simp only: first_best_Cons K_def)
  have r2: "first_best ((a0, v0) # rest)
     = map_option fst (find (\<lambda>av. snd av = max v0 K) ((a0, v0) # rest))"
    by (simp only: first_best_Cons K_def)
  show ?thesis
  proof (cases "v0 < v")
    case True
    then have "max v0 (max v K) = max v K" "v0 \<noteq> max v K"
      by (auto simp: max_def)
    then show ?thesis
      using True by (simp add: l r1)
  next
    case False
    then have m: "max v0 (max v K) = max v0 K"
      by (auto simp: max_def)
    show ?thesis
    proof (cases "v0 = max v0 K")
      case True
      then show ?thesis using False by (simp add: l r2 m)
    next
      case ne: False
      then have "v \<noteq> max v0 K" using False by (auto simp: max_def split: if_splits)
      then show ?thesis using False ne by (simp add: l r2 m)
    qed
  qed
qed

lemma choose_loop_first_best:
  "sequence_results (map (on_copy g sess (\<lambda>c. unpruned_minimax ag g fuel c 0 False)) acts)
     = Some (Inr vs) \<Longrightarrow>
   choose_loop ag g fuel sess acts (Some a0) v0
     = Some (Inr (first_best ((a0, v0) # zip acts vs)))"
proof (induction acts arbitrary: vs a0 v0)
  case Nil
  then show ?case by (simp add: first_best_def)
next
  case (Cons x acts)
  let ?f = "\<lambda>c. unpruned_minimax ag g fuel c 0 False"
  from Cons.prems obtain m ms' where
    m: "on_copy g sess ?f x = Some (Inr m)" and
    ms': "sequence_results (map (on_copy g sess ?f) acts) = Some (Inr ms')" and
    ms: "vs = m # ms'"
    by (auto simp: sequence_results_Cons simp del: sequence_results.simps)
  from on_copy_ok [OF m] obtain s' c where
    mv: "move g sess x = (Inr s', c)" and fc: "?f c = Some (Inr m)"
    by blast
  have v: "minimax ag g fuel c 0 False MInf PInf = Some (Inr m)"
    using minimax_full_window [OF fc] .
  show ?case
    using Cons.IH [OF ms'] mv v
    by (simp add: ms first_best_step)
qed

lemma choose_action_unpruned:
  assumes seq: "sequence_results
            (map (on_copy g sess (\<lambda>c. unpruned_minimax ag g fuel c 0 False))
                 (actions g (state sess))) = Some (Inr vs)"
    and fin: "\<forall>v \<in> set vs. v \<noteq> MInf"
  shows "choose_action ag g fuel sess = unpruned_choice ag g fuel sess"
proof (cases "actions g (state sess)")
  case Nil
  then show ?thesis
    using seq by (auto simp: choose_action_def unpruned_choice_def first_best_def)
next
  case (Cons x acts)
  let ?f = "\<lambda>c. unpruned_minimax ag g fuel c 0 False"
  from seq Cons obtain m ms' where
    m: "on_copy g sess ?f x = Some (Inr m)" and
    ms': "sequence_results (map (on_copy g sess ?f) acts) = Some (Inr ms')" and
    ms: "vs = m # ms'"
    by (auto simp: sequence_results_Cons simp del: sequence_results.simps)
  from on_copy_ok [OF m] obtain s' c where
    mv: "move g sess x = (Inr s', c)" and fc: "?f c = Some (Inr m)"
    by blast
  have v: "minimax ag g fuel c 0 False MInf PInf = Some (Inr m)"
    using minimax_full_window [OF fc] .
  have mne: "m \<noteq> MInf" using fin ms by simp
  have u: "unpruned_choice ag g fuel sess = Some (Inr (first_best ((x, m) # zip acts ms')))"
    using seq by (simp add: unpruned_choice_def Cons ms)
  show ?thesis
  proof (cases acts)
    case Nil
    then have "ms' = []" using ms' by simp
    then show ?thesis
      using u Nil Cons by (simp add: choose_action_def first_best_def)
  next
    case (Cons y ys)
    then show ?thesis
      using u \<open>actions g (state sess) = x # acts\<close> mv v mne choose_loop_first_best [OF ms']
      by (simp add: choose_action_def)
  qed
qed

lemma fold_max_in: "fold max xs (v::ext) \<in> set (v # xs)"
proof (induction xs arbitrary: v)
  case Nil
  show ?case by simp
next
  case (Cons x xs)
  have "fold max xs (max x v) \<in> set (max x v # xs)" using Cons.IH .
  moreover have "max x v = x \<or> max x v = v" by (auto simp: max_def)
  ultimately show ?case by auto
qed

lemma first_best_Some:
  assumes "avs \<noteq> []"
  shows "\<exists>a. first_best avs = Some a \<and> a \<in> fst ` set avs"
proof -
  from assms obtain a v rest where avs: "avs = (a, v) # rest"
    by (cases avs) auto
  define m where "m = fold max (map snd rest) v"
  have "m \<in> set (v # map snd rest)" unfolding m_def by (rule fold_max_in)
  then have "\<exists>av \<in> set avs. snd av = m" by (auto simp: avs)
  then obtain av where av: "find (\<lambda>av. snd av = m) avs = Some av"
    by (cases "find (\<lambda>av. snd av = m) avs") (auto simp: find_None_iff)
  then have "av \<in> set avs" by (auto simp: find_Some_iff)
  then show ?thesis
    using av unfolding first_best_def avs m_def by (auto simp: Let_def simp del: find.simps)
qed

lemma reachable_invariant:
  assumes "well_behaved g Inv remaining" "Inv (initial_state g)"
  shows "reachable g s \<Longrightarrow> Inv s"
proof (induction rule: reachable.induct)
  case reachable_initial
  show ?case using assms(2) .
next
  case (reachable_step s action s')
  then show ?case
    using assms(1) unfolding well_behaved_def by fastforce
qed

lemma choose_action_well_behaved:
  assumes wb: "well_behaved g Inv remaining"
    and inv: "Inv (state sess)"
    and fuel: "remaining (state sess) \<le> fuel"
    and nt: "\<not> is_terminal g (state sess)"
  shows "\<exists>a. a \<in> set (actions g (state sess)) \<and>
             unpruned_choice ag g fuel sess = Some (Inr (Some a)) \<and>
             choose_action ag g fuel sess = Some (Inr (Some a))"
proof -
  let ?f = "\<lambda>c. unpruned_minimax ag g fuel c 0 False"
  let ?acts = "actions g (state sess)"
  have ne: "?acts \<noteq> []"
    using wb inv nt by (auto simp: well_behaved_def)
  have "\<forall>a \<in> set ?acts. \<exists>i. on_copy g sess ?f a = Some (Inr (Fin i))"
  proof
    fix a assume a: "a \<in> set ?acts"
    from well_behaved_move [OF wb inv a] obtain s' where
      mv: "move g sess a = (Inr s', sess\<lparr>state := s', current_player := player g s'\<rparr>)"
      and inv': "Inv s'" and less: "remaining s' < remaining (state sess)"
      by blast
    have "remaining s' < fuel" using less fuel by simp
    with unpruned_minimax_total [OF wb, of "sess\<lparr>state := s', current_player := player g s'\<rparr>"] inv'
    show "\<exists>i. on_copy g sess ?f a = Some (Inr (Fin i))"
      by (simp add: on_copy_def mv)
  qed
  from sequence_results_all_ok [OF this] obtain vs where
    vs: "sequence_results (map (on_copy g sess ?f) ?acts) = Some (Inr vs)"
    and len: "length vs = length ?acts" and fin: "\<forall>v \<in> set vs. \<exists>i. v = Fin i"
    by blast
  have fin': "\<forall>v \<in> set vs. v \<noteq> MInf" using fin by auto
  have eq: "choose_action ag g fuel sess = unpruned_choice ag g fuel sess"
    using choose_action_unpruned [OF vs fin'] .
  have u: "unpruned_choice ag g fuel sess = Some (Inr (first_best (zip ?acts vs)))"
    using vs by (simp add: unpruned_choice_def)
  have "zip ?acts vs \<noteq> []" using ne len by (cases ?acts; cases vs) auto
  from first_best_Some [OF this] obtain a where
    a: "first_best (zip ?acts vs) = Some a" and "a \<in> fst ` set (zip ?acts vs)"
    by blast
  then have "a \<in> set ?acts" by (auto dest: set_zip_leftD)
  then show ?thesis using a u eq by simp
qed

section \<open>The games are well behaved\<close>

lemma halving_well_behaved:
  "well_behaved (HalvingGame n) (\<lambda>s. 0 \<le> fst s) halving_remaining"
  unfolding well_behaved_def
  by (auto simp: HalvingGame_def halving_actions_def halving_is_terminal_def halving_next_def
      halving_remaining_def Let_def split: if_splits)

lemma zero_count_update:
  "c < length row \<Longrightarrow> row ! c = 0 \<Longrightarrow> x \<noteq> 0 \<Longrightarrow>
   Suc (length (filter (\<lambda>x. x = 0) (row[c := x]))) = length (filter (\<lambda>x. x = (0::int)) row)"
proof (induction row arbitrary: c)
  case Nil
  then show ?case by simp
next
  case (Cons y row)
  then show ?case by (cases c) auto
qed

lemma empty_cells_place:
  "r < length b \<Longrightarrow> c < length (b ! r) \<Longrightarrow> b ! r ! c = 0 \<Longrightarrow> x \<noteq> 0 \<Longrightarrow>
   Suc (empty_cells (b[r := (b ! r)[c := x]], p')) = empty_cells (b, p)"
proof (induction b arbitrary: r)
  case Nil
  then show ?case by simp
next
  case (Cons row b)
  show ?case
  proof (cases r)
    case 0
    then show ?thesis
      using Cons.prems zero_count_update [of c row x] by (simp add: empty_cells_def)
  next
    case (Suc r')
    then show ?thesis
      using Cons.prems Cons.IH [of r'] by (simp add: empty_cells_def)
  qed
qed

lemma np_argwhere_zero_iff:
  "(ri, ci) \<in> set (np_argwhere_zero b) \<longleftrightarrow>
     (\<exists>r c. ri = int r \<and> ci = int c \<and> r < length b \<and> c < length (b ! r) \<and> b ! r ! c = 0)"
  by (auto simp: np_argwhere_zero_def)

lemma np_any_zero_iff:
  "np_any_zero b \<longleftrightarrow> (\<exists>r c. r < length b \<and> c < length (b ! r) \<and> b ! r ! c = 0)"
proof
  assume "np_any_zero b"
  then obtain row x where "row \<in> set b" "x \<in> set row" "x = 0"
    by (auto simp: np_any_zero_def list_ex_iff)
  then obtain r c where "r < length b" "b ! r = row" "c < length row" "row ! c = 0"
    by (auto simp: in_set_conv_nth)
  then show "\<exists>r c. r < length b \<and> c < length (b ! r) \<and> b ! r ! c = 0" by auto
next
  assume "\<exists>r c. r < length b \<and> c < length (b ! r) \<and> b ! r ! c = 0"
  then obtain r c where "r < length b" "c < length (b ! r)" "b ! r ! c = 0" by blast
  then have "b ! r \<in> set b" "0 \<in> set (b ! r)"
    using nth_mem [of r b] nth_mem [of c "b ! r"] by simp_all
  then show "np_any_zero b"
    unfolding np_any_zero_def list_ex_iff by blast
qed

lemma np_any_zero_argwhere: "np_any_zero b \<longleftrightarrow> np_argwhere_zero b \<noteq> []"
proof -
  have "np_argwhere_zero b \<noteq> [] \<longleftrightarrow> (\<exists>x. x \<in> set (np_argwhere_zero b))"
    by (cases "np_argwhere_zero b") auto
  then show ?thesis
    by (simp add: np_any_zero_iff split_paired_Ex np_argwhere_zero_iff)
qed

lemma np_index_nat [simp]: "r < n \<Longrightarrow> np_index n (int r) = Inr r"
  by (simp add: np_index_def)

lemma ttt_next_legal:
  assumes "a \<in> set (ttt_actions (b, cur))"
  shows "\<exists>r c. a = (int r, int c) \<and> r < length b \<and> c < length (b ! r) \<and> b ! r ! c = 0 \<and>
               ttt_next (b, cur) a = Inr (b[r := (b ! r)[c := cur]], - cur)"
proof -
  from assms have "a \<in> set (np_argwhere_zero b)"
    by (simp add: ttt_actions_def split: if_splits)
  moreover obtain ri ci where "a = (ri, ci)" by (cases a)
  ultimately obtain r c where
    "a = (int r, int c)" "r < length b" "c < length (b ! r)" "b ! r ! c = 0"
    by (auto simp: np_argwhere_zero_iff)
  then show ?thesis by (auto simp: ttt_next_def)
qed

lemma ttt_well_behaved:
  "well_behaved TicTacToeGame (\<lambda>s. snd s \<noteq> 0) empty_cells"
  unfolding well_behaved_def
proof (intro allI impI conjI ballI)
  fix s :: ttt_state assume "\<not> is_terminal TicTacToeGame s"
  then show "actions TicTacToeGame s \<noteq> []"
    by (auto simp: TicTacToeGame_def ttt_actions_def ttt_is_terminal_def np_any_zero_argwhere
        split: if_splits)
next
  fix s :: ttt_state and a
  assume inv: "snd s \<noteq> 0" and a: "a \<in> set (actions TicTacToeGame s)"
  obtain b cur where s: "s = (b, cur)" by (cases s)
  from a have "a \<in> set (ttt_actions (b, cur))" by (simp add: TicTacToeGame_def s)
  from ttt_next_legal [OF this] obtain r c where
    rc: "r < length b" "c < length (b ! r)" "b ! r ! c = 0" and
    nx: "ttt_next (b, cur) a = Inr (b[r := (b ! r)[c := cur]], - cur)"
    by blast
  have "Suc (empty_cells (b[r := (b ! r)[c := cur]], - cur)) = empty_cells (b, cur)"
    using empty_cells_place [OF rc] inv by (simp add: s)
  then show "\<exists>s'. next_state TicTacToeGame s a = Inr s' \<and> snd s' \<noteq> 0 \<and>
                  empty_cells s' < empty_cells s"
    using nx inv by (auto simp: TicTacToeGame_def s)
qed

section \<open>Pruning does not change the chosen move\<close>

lemma empty_cells_initial_ttt: "empty_cells (initial_state TicTacToeGame) = 9"
  by (simp add: TicTacToeGame_def empty_cells_def np_zeros_def eval_nat_numeral)

lemma ttt_initial_not_terminal: "\<not> ttt_is_terminal (np_zeros 3 3, 1)"
  by (simp add: ttt_is_terminal_def ttt_check_winner_def line_sums_def np_sum_axis1_def
      np_sum_axis0_def np_trace_def np_fliplr_def ncols_def np_any_zero_def np_zeros_def
      eval_nat_numeral)

text \<open>
  Claim C1. In every non-terminal state that legal moves reach from the initial state of a
  Halving game with a non-negative starting number, and of Tic-Tac-Toe, \<open>choose_action\<close>
  (whose \<open>_minimax\<close> prunes with alpha and beta) returns within the fuel, and the action
  it returns is the action of the search without pruning: the first action, in the order
  of \<open>actions\<close>, whose full minimax value is the greatest. This holds for every agent, so
  for every player and every depth bound, given fuel for the objects that remain.
\<close>

theorem alpha_beta_equivalence:
  "(0 \<le> n \<and> reachable (HalvingGame n) (state hs) \<and> \<not> is_terminal (HalvingGame n) (state hs)
      \<and> halving_remaining (state hs) \<le> fuel \<longrightarrow>
      (\<exists>a. a \<in> set (actions (HalvingGame n) (state hs))
         \<and> unpruned_choice ag (HalvingGame n) fuel hs = Some (Inr (Some a))
         \<and> choose_action ag (HalvingGame n) fuel hs = Some (Inr (Some a))))
   \<and> (reachable TicTacToeGame (state ts) \<and> \<not> is_terminal TicTacToeGame (state ts)
      \<and> empty_cells (state ts) \<le> fuel' \<longrightarrow>
      (\<exists>a. a \<in> set (actions TicTacToeGame (state ts))
         \<and> unpruned_choice ag TicTacToeGame fuel' ts = Some (Inr (Some a))
         \<and> choose_action ag TicTacToeGame fuel' ts = Some (Inr (Some a))))"
proof (intro conjI impI)
  assume h: "0 \<le> n \<and> reachable (HalvingGame n) (state hs) \<and>
    \<not> is_terminal (HalvingGame n) (state hs) \<and> halving_remaining (state hs) \<le> fuel"
  have "0 \<le> fst (initial_state (HalvingGame n))" using h by (simp add: HalvingGame_def)
  from reachable_invariant [OF halving_well_behaved this] h
  have "0 \<le> fst (state hs)" by blast
  from choose_action_well_behaved [OF halving_well_behaved this, where fuel = fuel and ag = ag] h
  show "\<exists>a. a \<in> set (actions (HalvingGame n) (state hs))
         \<and> unpruned_choice ag (HalvingGame n) fuel hs = Some (Inr (Some a))
         \<and> choose_action ag (HalvingGame n) fuel hs = Some (Inr (Some a))"
    by blast
next
  assume h: "reachable TicTacToeGame (state ts) \<and> \<not> is_terminal TicTacToeGame (state ts) \<and>
    empty_cells (state ts) \<le> fuel'"
  have "snd (initial_state TicTacToeGame) \<noteq> 0" by (simp add: TicTacToeGame_def)
  from reachable_invariant [OF ttt_well_behaved this] h
  have "snd (state ts) \<noteq> 0" by blast
  from choose_action_well_behaved [OF ttt_well_behaved this, where fuel = fuel' and ag = ag] h
  show "\<exists>a. a \<in> set (actions TicTacToeGame (state ts))
         \<and> unpruned_choice ag TicTacToeGame fuel' ts = Some (Inr (Some a))
         \<and> choose_action ag TicTacToeGame fuel' ts = Some (Inr (Some a))"
    by blast
qed

theorem alpha_beta_equivalence_witness:
  "(\<exists>a. unpruned_choice \<lparr>player_id = 1, max_depth = None\<rparr> (HalvingGame 15) 15
           (new_session (HalvingGame 15)) = Some (Inr (Some a))
       \<and> choose_action \<lparr>player_id = 1, max_depth = None\<rparr> (HalvingGame 15) 15
           (new_session (HalvingGame 15)) = Some (Inr (Some a)))
   \<and> (\<exists>a. unpruned_choice \<lparr>player_id = 1, max_depth = None\<rparr> TicTacToeGame 9
           (new_session TicTacToeGame) = Some (Inr (Some a))
       \<and> choose_action \<lparr>player_id = 1, max_depth = None\<rparr> TicTacToeGame 9
           (new_session TicTacToeGame) = Some (Inr (Some a)))"
proof -
  have r1: "reachable (HalvingGame 15) (state (new_session (HalvingGame 15)))"
    by (simp add: new_session_def reachable_initial)
  have r2: "reachable TicTacToeGame (state (new_session TicTacToeGame))"
    by (simp add: new_session_def reachable_initial)
  have h: "(0::int) \<le> 15 \<and> \<not> is_terminal (HalvingGame 15) (state (new_session (HalvingGame 15)))
      \<and> halving_remaining (state (new_session (HalvingGame 15))) \<le> 15"
    by (simp add: new_session_def HalvingGame_def halving_is_terminal_def halving_remaining_def)
  have t: "\<not> is_terminal TicTacToeGame (state (new_session TicTacToeGame))
      \<and> empty_cells (state (new_session TicTacToeGame)) \<le> 9"
    using ttt_initial_not_terminal empty_cells_initial_ttt
    by (simp add: new_session_def TicTacToeGame_def)
  show ?thesis
    using alpha_beta_equivalence [of 15 "new_session (HalvingGame 15)" 15
        "\<lparr>player_id = 1, max_depth = None\<rparr>" "new_session TicTacToeGame" 9] r1 r2 h t
    by blast
qed


lemma nim_actions_iff:
  "(pi, k) \<in> set (nim_actions (piles, cur)) \<longleftrightarrow>
     (\<exists>i. pi = int i \<and> i < length piles \<and> 1 \<le> k \<and> k \<le> piles ! i)"
  by (auto simp: nim_actions_def)

lemma nim_next_legal:
  assumes "a \<in> set (nim_actions (piles, cur))"
  shows "\<exists>i k. a = (int i, k) \<and> i < length piles \<and> 1 \<le> k \<and> k \<le> piles ! i \<and>
               nim_next (piles, cur) a = Inr (piles[i := piles ! i - k], - cur)"
proof -
  obtain pi k where a: "a = (pi, k)" by (cases a)
  with assms obtain i where "pi = int i" "i < length piles" "1 \<le> k" "k \<le> piles ! i"
    by (auto simp: nim_actions_iff)
  then show ?thesis by (auto simp: a nim_next_def)
qed



lemma last_filter_upt:
  "filter P [0..<n] \<noteq> [] \<Longrightarrow>
     P (last (filter P [0..<n])) \<and> last (filter P [0..<n]) < n \<and>
     (\<forall>r'. last (filter P [0..<n]) < r' \<and> r' < n \<longrightarrow> \<not> P r')"
proof (induction n)
  case 0
  then show ?case by simp
next
  case (Suc n)
  show ?case
  proof (cases "P n")
    case True
    then have l: "last (filter P [0..<Suc n]) = n" by simp
    have "\<And>r'. n < r' \<Longrightarrow> r' < Suc n \<Longrightarrow> False" by arith
    then show ?thesis unfolding l using True by blast
  next
    case False
    then have eq: "filter P [0..<Suc n] = filter P [0..<n]" by simp
    have ne: "filter P [0..<n] \<noteq> []" using Suc.prems by (simp add: False)
    let ?k = "last (filter P [0..<n])"
    have ih: "P ?k" "?k < n" "\<forall>r'. ?k < r' \<and> r' < n \<longrightarrow> \<not> P r'"
      using Suc.IH [OF ne] by blast+
    have "\<forall>r'. ?k < r' \<and> r' < Suc n \<longrightarrow> \<not> P r'"
    proof (intro allI impI)
      fix r' assume "?k < r' \<and> r' < Suc n"
      then have "r' = n \<or> (?k < r' \<and> r' < n)" by arith
      then show "\<not> P r'" using False ih(3) by blast
    qed
    moreover have "?k < Suc n" using ih(2) by simp
    ultimately show ?thesis unfolding eq using ih(1) by blast
  qed
qed

lemma wf_board_ncols: "wf_board n b \<Longrightarrow> ncols b = n"
  by (cases b) (auto simp: wf_board_def ncols_def)

lemma wf_board_row: "wf_board n b \<Longrightarrow> r < n \<Longrightarrow> length (b ! r) = n"
  by (auto simp: wf_board_def)

lemma wf_board_place:
  assumes "wf_board n b" "r < n"
  shows "wf_board n (b[r := (b ! r)[c := x]])"
proof -
  have "\<forall>row \<in> set (b[r := (b ! r)[c := x]]). length row = n"
  proof
    fix row assume "row \<in> set (b[r := (b ! r)[c := x]])"
    then have "row \<in> insert ((b ! r)[c := x]) (set b)"
      using set_update_subset_insert by fastforce
    then show "length row = n" using assms by (auto simp: wf_board_def)
  qed
  then show ?thesis using assms by (simp add: wf_board_def)
qed

lemma nth_place:
  "wf_board n b \<Longrightarrow> r < n \<Longrightarrow> c < n \<Longrightarrow> i < n \<Longrightarrow> j < n \<Longrightarrow>
     b[r := (b ! r)[c := x]] ! i ! j = (if i = r \<and> j = c then x else b ! i ! j)"
  by (auto simp: wf_board_def nth_list_update)

lemma settledD:
  assumes "settled b" "wf_board n b" "Suc r < n" "c < n" "b ! r ! c \<noteq> 0"
  shows "b ! Suc r ! c \<noteq> 0"
proof -
  have "ncols b = n" "length b = n"
    using assms(2) by (simp_all add: wf_board_ncols wf_board_def)
  moreover have "Suc r < length b \<and> c < ncols b \<and> b ! r ! c \<noteq> 0 \<longrightarrow> b ! Suc r ! c \<noteq> 0"
    using assms(1) unfolding settled_def by (drule_tac x = r in spec) (drule_tac x = c in spec, assumption)
  ultimately show ?thesis using assms(3-5) by simp
qed

lemma settled_top:
  assumes "settled b" "wf_board n b" "c < n"
  shows "r < n \<Longrightarrow> b ! r ! c = 0 \<Longrightarrow> b ! 0 ! c = 0"
proof (induction r)
  case 0
  then show ?case by simp
next
  case (Suc r)
  have "b ! r ! c = 0"
  proof (rule ccontr)
    assume "b ! r ! c \<noteq> 0"
    then have "b ! Suc r ! c \<noteq> 0"
      using settledD [OF assms(1,2) Suc.prems(1) assms(3)] by simp
    then show False using Suc.prems(2) by simp
  qed
  then show ?case using Suc by simp
qed

lemma settled_place:
  assumes st: "settled b" and wf: "wf_board n b" and r: "r < n" and c: "c < n"
    and x: "x \<noteq> 0" and below: "\<forall>r'. r < r' \<and> r' < n \<longrightarrow> b ! r' ! c \<noteq> 0"
  shows "settled (b[r := (b ! r)[c := x]])"
  unfolding settled_def
proof (intro allI impI)
  fix r1 c1
  let ?b' = "b[r := (b ! r)[c := x]]"
  assume h: "Suc r1 < length ?b' \<and> c1 < ncols ?b' \<and> ?b' ! r1 ! c1 \<noteq> 0"
  have wf': "wf_board n ?b'" using wf_board_place [OF wf r] .
  have r1: "Suc r1 < n" "r1 < n" using h wf by (auto simp: wf_board_def)
  have c1: "c1 < n" using h wf_board_ncols [OF wf'] by simp
  have n1: "?b' ! r1 ! c1 = (if r1 = r \<and> c1 = c then x else b ! r1 ! c1)"
    using nth_place [OF wf r c r1(2) c1] .
  have n2: "?b' ! Suc r1 ! c1 = (if Suc r1 = r \<and> c1 = c then x else b ! Suc r1 ! c1)"
    using nth_place [OF wf r c r1(1) c1] .
  show "?b' ! Suc r1 ! c1 \<noteq> 0"
  proof (cases "c1 = c \<and> (Suc r1 = r \<or> r1 = r)")
    case True
    then show ?thesis using n2 x below r1 by auto
  next
    case False
    then have "b ! r1 ! c1 \<noteq> 0" using h n1 by (auto split: if_splits)
    then have "b ! Suc r1 ! c1 \<noteq> 0"
      using settledD [OF st wf r1(1) c1] by simp
    then show ?thesis using n2 False by auto
  qed
qed

lemma c4_next_legal:
  assumes inv: "c4_inv n (b, cur)" and a: "a \<in> set (c4_actions n (b, cur))"
  shows "\<exists>r c. a = int c \<and> r < n \<and> c < n \<and> b ! r ! c = 0 \<and> b ! 0 ! c = 0 \<and>
               (\<forall>r'. r < r' \<and> r' < n \<longrightarrow> b ! r' ! c \<noteq> 0) \<and>
               c4_next n (b, cur) a = Inr (b[r := (b ! r)[c := cur]], - cur)"
proof -
  have wf: "wf_board n b" using inv by (simp add: c4_inv_def)
  from a obtain c where c: "a = int c" "c < n" "b ! 0 ! c = 0"
    by (auto simp: c4_actions_def wf_board_ncols [OF wf] split: if_splits)
  let ?P = "\<lambda>r. b ! r ! c = 0"
  have len: "length b = n" using wf by (simp add: wf_board_def)
  have "0 < n" using c by simp
  then have "\<exists>r \<in> set [0..<n]. ?P r" using c by auto
  then have ne: "filter ?P [0..<n] \<noteq> []" by (simp only: filter_empty_conv) blast
  from last_filter_upt [of ?P n, OF ne]
  have l: "?P (last (filter ?P [0..<n]))" "last (filter ?P [0..<n]) < n"
    "\<forall>r'. last (filter ?P [0..<n]) < r' \<and> r' < n \<longrightarrow> \<not> ?P r'"
    by blast+
  have "c4_next n (b, cur) a
      = Inr (b[last (filter ?P [0..<n]) := (b ! last (filter ?P [0..<n]))[c := cur]], - cur)"
    using c ne by (simp add: c4_next_def Let_def len)
  then show ?thesis using c l by blast
qed

lemma c4_well_behaved:
  "well_behaved (connectfour_game n) (c4_inv n) empty_cells"
  unfolding well_behaved_def
proof (intro allI impI conjI ballI)
  fix s :: c4_state
  assume inv: "c4_inv n s" and nt: "\<not> is_terminal (connectfour_game n) s"
  obtain b cur where s: "s = (b, cur)" by (cases s)
  have wf: "wf_board n b" and st: "settled b" using inv by (simp_all add: c4_inv_def s)
  from nt have "np_any_zero b" "\<not> c4_is_terminal n (b, cur)"
    by (auto simp: connectfour_game_def c4_is_terminal_def s split: if_splits)
  then obtain r c where rc: "r < length b" "c < length (b ! r)" "b ! r ! c = 0"
    by (auto simp: np_any_zero_iff)
  then have r: "r < n" and c: "c < n" using wf by (auto simp: wf_board_def)
  have "b ! 0 ! c = 0" using settled_top [OF st wf c r rc(3)] .
  then have "\<exists>c \<in> set [0..<ncols b]. b ! 0 ! c = 0"
    using c by (auto simp: wf_board_ncols [OF wf])
  then have "filter (\<lambda>c. b ! 0 ! c = 0) [0..<ncols b] \<noteq> []"
    by (simp only: filter_empty_conv) blast
  then show "actions (connectfour_game n) s \<noteq> []"
    using \<open>\<not> c4_is_terminal n (b, cur)\<close>
    by (simp add: connectfour_game_def c4_actions_def s)
next
  fix s :: c4_state and a
  assume inv: "c4_inv n s" and a: "a \<in> set (actions (connectfour_game n) s)"
  obtain b cur where s: "s = (b, cur)" by (cases s)
  have wf: "wf_board n b" and st: "settled b" and cur: "cur \<noteq> 0"
    using inv by (simp_all add: c4_inv_def s)
  from a have "a \<in> set (c4_actions n (b, cur))" by (simp add: connectfour_game_def s)
  from c4_next_legal [OF inv [unfolded s] this] obtain r c where
    rc: "r < n" "c < n" "b ! r ! c = 0" and
    below: "\<forall>r'. r < r' \<and> r' < n \<longrightarrow> b ! r' ! c \<noteq> 0" and
    nx: "c4_next n (b, cur) a = Inr (b[r := (b ! r)[c := cur]], - cur)"
    by blast
  have "r < length b" "c < length (b ! r)" using rc wf by (auto simp: wf_board_def)
  from empty_cells_place [OF this rc(3) cur]
  have "empty_cells (b[r := (b ! r)[c := cur]], - cur) < empty_cells (b, cur)"
    by (metis lessI)
  moreover have "c4_inv n (b[r := (b ! r)[c := cur]], - cur)"
    using wf_board_place [OF wf rc(1)] settled_place [OF st wf rc(1,2) cur below] cur
    by (simp add: c4_inv_def)
  ultimately show "\<exists>s'. next_state (connectfour_game n) s a = Inr s' \<and> c4_inv n s' \<and>
                  empty_cells s' < empty_cells s"
    using nx by (auto simp: connectfour_game_def s)
qed

lemma ncols_zeros: "ncols (np_zeros n m) = (if n = 0 then 0 else m)"
  by (cases n) (simp_all add: ncols_def np_zeros_def)

lemma c4_inv_initial: "c4_inv n (initial_state (connectfour_game n))"
proof -
  have "wf_board n (np_zeros n n)" by (simp add: wf_board_def np_zeros_def)
  moreover have "settled (np_zeros n n)"
    unfolding settled_def by (auto simp: ncols_zeros) (simp add: np_zeros_def)
  ultimately show ?thesis by (simp add: c4_inv_def connectfour_game_def)
qed

section \<open>Every play ends\<close>










section \<open>The action that the agent chooses\<close>








section \<open>Utilities of terminal states\<close>

lemma check_4x4_winner_cases:
  "check_4x4_winner b = None \<or> check_4x4_winner b = Some 1 \<or> check_4x4_winner b = Some (- 1)"
  by (simp add: check_4x4_winner_def Let_def)

lemma first_window_winner_cases:
  "first_window_winner b ws = None \<or> first_window_winner b ws = Some 1
     \<or> first_window_winner b ws = Some (- 1)"
proof (induction ws)
  case Nil
  show ?case by simp
next
  case (Cons w ws)
  obtain r c where w: "w = (r, c)" by (cases w)
  show ?case
    using Cons check_4x4_winner_cases [of "np_window4 b r c"]
    by (auto simp: w split: option.splits)
qed

lemma c4_check_winner_cases:
  "c4_check_winner n b = None \<or> c4_check_winner n b = Some 1 \<or> c4_check_winner n b = Some (- 1)"
  unfolding c4_check_winner_def
  using check_4x4_winner_cases first_window_winner_cases by auto

lemma ttt_check_winner_cases:
  "ttt_check_winner b = None \<or> ttt_check_winner b = Some 1 \<or> ttt_check_winner b = Some (- 1)"
  by (simp add: ttt_check_winner_def Let_def)

lemma ttt_draw_example:
  "ttt_is_terminal ([[1, - 1, 1], [1, - 1, - 1], [- 1, 1, 1]], - 1)
   \<and> ttt_check_winner [[1, - 1, 1], [1, - 1, - 1], [- 1, 1, 1]] = None"
  by code_simp

lemma c4_win_example:
  "c4_is_terminal 4 ([[0, 0, 0, 0], [0, 0, 0, 0], [- 1, - 1, - 1, 0], [1, 1, 1, 1]], - 1)
   \<and> c4_check_winner 4 [[0, 0, 0, 0], [0, 0, 0, 0], [- 1, - 1, - 1, 0], [1, 1, 1, 1]] = Some 1"
  by code_simp

text \<open>
  Claim C6. In every terminal state of every game the utility of player \<open>+1\<close> is the negation
  of the utility of player \<open>-1\<close>. In Halving and Nim, for a state whose player field is \<open>+1\<close>
  or \<open>-1\<close>, the utilities are \<open>+1\<close> for the player who moved last (the negation of the
  player to act) and \<open>-1\<close> for the player to act, so there is no draw. In Tic-Tac-Toe and
  Connect Four a terminal state without a winner gives \<open>0\<close> to both players, and a terminal
  state with a winner gives neither player \<open>0\<close>.
\<close>

theorem utility_antisymmetric:
  "(halving_is_terminal hs \<and> (snd hs = 1 \<or> snd hs = - 1) \<longrightarrow>
      halving_utility hs 1 = - halving_utility hs (- 1)
      \<and> halving_utility hs (- snd hs) = 1 \<and> halving_utility hs (snd hs) = - 1)
   \<and> (nim_is_terminal ns \<and> (snd ns = 1 \<or> snd ns = - 1) \<longrightarrow>
      nim_utility ns 1 = - nim_utility ns (- 1)
      \<and> nim_utility ns (- snd ns) = 1 \<and> nim_utility ns (snd ns) = - 1)
   \<and> (ttt_is_terminal ts \<longrightarrow>
      ttt_utility ts 1 = - ttt_utility ts (- 1)
      \<and> (ttt_check_winner (fst ts) = None \<longrightarrow> ttt_utility ts 1 = 0 \<and> ttt_utility ts (- 1) = 0)
      \<and> (ttt_check_winner (fst ts) \<noteq> None \<longrightarrow> ttt_utility ts 1 \<noteq> 0))
   \<and> (c4_is_terminal n cs \<longrightarrow>
      c4_utility n cs 1 = - c4_utility n cs (- 1)
      \<and> (c4_check_winner n (fst cs) = None \<longrightarrow> c4_utility n cs 1 = 0 \<and> c4_utility n cs (- 1) = 0)
      \<and> (c4_check_winner n (fst cs) \<noteq> None \<longrightarrow> c4_utility n cs 1 \<noteq> 0))"
proof (intro conjI impI)
  assume "halving_is_terminal hs \<and> (snd hs = 1 \<or> snd hs = - 1)"
  then show "halving_utility hs 1 = - halving_utility hs (- 1)"
    "halving_utility hs (- snd hs) = 1" "halving_utility hs (snd hs) = - 1"
    by (auto simp: halving_utility_def Let_def)
next
  assume "nim_is_terminal ns \<and> (snd ns = 1 \<or> snd ns = - 1)"
  then show "nim_utility ns 1 = - nim_utility ns (- 1)"
    "nim_utility ns (- snd ns) = 1" "nim_utility ns (snd ns) = - 1"
    by (auto simp: nim_utility_def Let_def)
next
  assume t: "ttt_is_terminal ts"
  show "ttt_utility ts 1 = - ttt_utility ts (- 1)"
    using t ttt_check_winner_cases [of "fst ts"] by (auto simp: ttt_utility_def)
  show "ttt_utility ts 1 = 0" "ttt_utility ts (- 1) = 0" if "ttt_check_winner (fst ts) = None"
    using t that by (simp_all add: ttt_utility_def)
  show "ttt_utility ts 1 \<noteq> 0" if "ttt_check_winner (fst ts) \<noteq> None"
    using t that by (auto simp: ttt_utility_def split: if_splits)
next
  assume t: "c4_is_terminal n cs"
  show "c4_utility n cs 1 = - c4_utility n cs (- 1)"
    using t c4_check_winner_cases [of n "fst cs"] by (auto simp: c4_utility_def)
  show "c4_utility n cs 1 = 0" "c4_utility n cs (- 1) = 0" if "c4_check_winner n (fst cs) = None"
    using t that by (simp_all add: c4_utility_def)
  show "c4_utility n cs 1 \<noteq> 0" if "c4_check_winner n (fst cs) \<noteq> None"
    using t that by (auto simp: c4_utility_def split: if_splits)
qed

theorem utility_antisymmetric_witness:
  "halving_is_terminal (0, 1) \<and> halving_utility (0, 1) 1 = - halving_utility (0, 1) (- 1)
   \<and> halving_utility (0, 1) (- 1) = 1
   \<and> nim_is_terminal ([0, 0], - 1) \<and> nim_utility ([0, 0], - 1) 1 = 1
   \<and> ttt_is_terminal ([[1, - 1, 1], [1, - 1, - 1], [- 1, 1, 1]], - 1)
   \<and> ttt_utility ([[1, - 1, 1], [1, - 1, - 1], [- 1, 1, 1]], - 1) 1 = 0
   \<and> ttt_utility ([[1, - 1, 1], [1, - 1, - 1], [- 1, 1, 1]], - 1) (- 1) = 0
   \<and> c4_is_terminal 4 ([[0, 0, 0, 0], [0, 0, 0, 0], [- 1, - 1, - 1, 0], [1, 1, 1, 1]], - 1)
   \<and> c4_utility 4 ([[0, 0, 0, 0], [0, 0, 0, 0], [- 1, - 1, - 1, 0], [1, 1, 1, 1]], - 1) 1
       = - c4_utility 4 ([[0, 0, 0, 0], [0, 0, 0, 0], [- 1, - 1, - 1, 0], [1, 1, 1, 1]], - 1) (- 1)
   \<and> c4_utility 4 ([[0, 0, 0, 0], [0, 0, 0, 0], [- 1, - 1, - 1, 0], [1, 1, 1, 1]], - 1) 1 \<noteq> 0"
proof -
  have h: "halving_is_terminal (0, 1)" by (simp add: halving_is_terminal_def)
  have n: "nim_is_terminal ([0, 0], - 1)" by (simp add: nim_is_terminal_def)
  show ?thesis
    using utility_antisymmetric [of "(0, 1)" "([0, 0], - 1)"
        "([[1, - 1, 1], [1, - 1, - 1], [- 1, 1, 1]], - 1)" 4
        "([[0, 0, 0, 0], [0, 0, 0, 0], [- 1, - 1, - 1, 0], [1, 1, 1, 1]], - 1)"]
      h n ttt_draw_example c4_win_example
    by simp
qed

section \<open>Utilities of states that are not terminal\<close>

text \<open>
  Claim C9 says that \<open>utility\<close> on a state that is not terminal is detectable and never
  returns a value that a terminal state can have. The code returns \<open>0\<close> there: the empty
  Tic-Tac-Toe board, which is not terminal, has the utility \<open>0\<close> of the drawn full board
  below.
\<close>

theorem utility_nonterminal_counterexample:
  "\<not> ttt_is_terminal (np_zeros 3 3, 1)
   \<and> ttt_utility (np_zeros 3 3, 1) 1 = 0
   \<and> ttt_is_terminal ([[1, - 1, 1], [1, - 1, - 1], [- 1, 1, 1]], - 1)
   \<and> ttt_utility ([[1, - 1, 1], [1, - 1, - 1], [- 1, 1, 1]], - 1) 1 = 0"
  by code_simp

text \<open>
  Claim C9 as amended. On a state that is not terminal, \<open>utility\<close> returns \<open>0\<close> for every
  player and in every game, without an exception. In Halving and Nim no terminal state has
  the utility \<open>0\<close>, so there the value \<open>0\<close> tells that the state is not terminal; in
  Tic-Tac-Toe and Connect Four \<open>0\<close> is also the value of a draw.
\<close>

theorem utility_nonterminal_zero:
  "(\<not> halving_is_terminal hs \<longrightarrow> halving_utility hs p = 0)
   \<and> (\<not> nim_is_terminal ns \<longrightarrow> nim_utility ns p = 0)
   \<and> (\<not> ttt_is_terminal ts \<longrightarrow> ttt_utility ts p = 0)
   \<and> (\<not> c4_is_terminal n cs \<longrightarrow> c4_utility n cs p = 0)
   \<and> (halving_is_terminal hs \<longrightarrow> halving_utility hs p \<noteq> 0)
   \<and> (nim_is_terminal ns \<longrightarrow> nim_utility ns p \<noteq> 0)"
  by (simp add: halving_utility_def nim_utility_def ttt_utility_def c4_utility_def Let_def)

theorem utility_nonterminal_zero_witness:
  "\<not> halving_is_terminal (15, 1) \<and> halving_utility (15, 1) 1 = 0
   \<and> \<not> nim_is_terminal ([1, 3, 5, 7], 1) \<and> nim_utility ([1, 3, 5, 7], 1) 1 = 0
   \<and> \<not> ttt_is_terminal (np_zeros 3 3, 1) \<and> ttt_utility (np_zeros 3 3, 1) 1 = 0
   \<and> \<not> c4_is_terminal 4 (np_zeros 4 4, 1) \<and> c4_utility 4 (np_zeros 4 4, 1) 1 = 0
   \<and> halving_is_terminal (0, - 1) \<and> halving_utility (0, - 1) 1 \<noteq> 0
   \<and> nim_is_terminal ([0, 0, 0, 0], - 1) \<and> nim_utility ([0, 0, 0, 0], - 1) 1 \<noteq> 0"
proof -
  have "\<not> halving_is_terminal (15, 1)" "\<not> nim_is_terminal ([1, 3, 5, 7], 1)"
    "\<not> ttt_is_terminal (np_zeros 3 3, 1)" "\<not> c4_is_terminal 4 (np_zeros 4 4, 1)"
    "halving_is_terminal (0, - 1)" "nim_is_terminal ([0, 0, 0, 0], - 1)"
    by code_simp+
  then show ?thesis
    using utility_nonterminal_zero [of "(15, 1)" 1 "([1, 3, 5, 7], 1)" "(np_zeros 3 3, 1)"
        4 "(np_zeros 4 4, 1)"]
      utility_nonterminal_zero [of "(0, - 1)" 1 "([0, 0, 0, 0], - 1)" "(np_zeros 3 3, 1)"
        4 "(np_zeros 4 4, 1)"]
    by blast
qed

section \<open>Moves through the session\<close>

lemma move_illegal: "a \<notin> set (actions g (state sess)) \<Longrightarrow> move g sess a = (Inl ValueError, sess)"
  by (simp add: move_def)

lemma move_legal:
  "a \<in> set (actions g (state sess)) \<Longrightarrow> next_state g (state sess) a = Inr s' \<Longrightarrow>
     move g sess a = (Inr s', sess\<lparr>state := s', current_player := player g s'\<rparr>)"
  by (simp add: move_def)

lemma halving_next_legal:
  "a \<in> set (halving_actions s) \<Longrightarrow> \<exists>s'. halving_next s a = Inr s'"
  by (auto simp: halving_actions_def halving_next_def Let_def split: if_splits)

lemma c4_next_wf:
  assumes wf: "wf_board n b" and a: "a \<in> set (c4_actions n (b, cur))"
  shows "\<exists>s'. c4_next n (b, cur) a = Inr s'"
proof -
  from a obtain c where c: "a = int c" "c < n" "b ! 0 ! c = 0"
    by (auto simp: c4_actions_def wf_board_ncols [OF wf] split: if_splits)
  then show ?thesis by (simp add: c4_next_def Let_def)
qed

text \<open>
  Claim C7. In every game, \<open>move\<close> with an action that is not in \<open>actions\<close> of the current
  state raises \<open>ValueError\<close> and leaves the session, its state and its current player, as it
  was. In each of the four games a legal action never raises: \<open>move\<close> returns the successor
  and stores it with its player in the session (for Connect Four on a square board of the
  game's size). So \<open>move\<close> raises exactly for the actions outside \<open>actions\<close>. In particular
  a Tic-Tac-Toe cell that is occupied is not a legal action, and playing it raises and
  changes nothing.
\<close>

theorem move_raises_iff_illegal:
  "(a \<notin> set (actions g (state sess)) \<longrightarrow> move g sess a = (Inl ValueError, sess))
   \<and> (ha \<in> set (actions (HalvingGame n) (state hs)) \<longrightarrow>
        (\<exists>s'. move (HalvingGame n) hs ha
               = (Inr s', hs\<lparr>state := s', current_player := snd s'\<rparr>)))
   \<and> (ta \<in> set (actions TicTacToeGame (state ts)) \<longrightarrow>
        (\<exists>s'. move TicTacToeGame ts ta
               = (Inr s', ts\<lparr>state := s', current_player := snd s'\<rparr>)))
   \<and> (na \<in> set (actions (NimGame piles) (state ns)) \<longrightarrow>
        (\<exists>s'. move (NimGame piles) ns na
               = (Inr s', ns\<lparr>state := s', current_player := snd s'\<rparr>)))
   \<and> (wf_board board_size (fst (state cs))
        \<and> ca \<in> set (actions (connectfour_game board_size) (state cs)) \<longrightarrow>
        (\<exists>s'. move (connectfour_game board_size) cs ca
               = (Inr s', cs\<lparr>state := s', current_player := snd s'\<rparr>)))
   \<and> (r < length (fst (state ts)) \<and> c < length (fst (state ts) ! r)
        \<and> fst (state ts) ! r ! c \<noteq> 0 \<longrightarrow>
        move TicTacToeGame ts (int r, int c) = (Inl ValueError, ts))"
proof (intro conjI impI)
  assume "a \<notin> set (actions g (state sess))"
  then show "move g sess a = (Inl ValueError, sess)" by (rule move_illegal)
next
  assume h: "ha \<in> set (actions (HalvingGame n) (state hs))"
  then have "ha \<in> set (halving_actions (state hs))" by (simp add: HalvingGame_def)
  from halving_next_legal [OF this] obtain s' where
    "next_state (HalvingGame n) (state hs) ha = Inr s'" by (auto simp: HalvingGame_def)
  from move_legal [OF h this]
  show "\<exists>s'. move (HalvingGame n) hs ha = (Inr s', hs\<lparr>state := s', current_player := snd s'\<rparr>)"
    by (auto simp: HalvingGame_def halving_player_def)
next
  assume h: "ta \<in> set (actions TicTacToeGame (state ts))"
  obtain b cur where s: "state ts = (b, cur)" by (cases "state ts")
  from h have "ta \<in> set (ttt_actions (b, cur))" by (simp add: TicTacToeGame_def s)
  from ttt_next_legal [OF this] obtain s' where
    "next_state TicTacToeGame (state ts) ta = Inr s'" by (auto simp: TicTacToeGame_def s)
  from move_legal [OF h this]
  show "\<exists>s'. move TicTacToeGame ts ta = (Inr s', ts\<lparr>state := s', current_player := snd s'\<rparr>)"
    by (auto simp: TicTacToeGame_def ttt_player_def)
next
  assume h: "na \<in> set (actions (NimGame piles) (state ns))"
  obtain ps cur where s: "state ns = (ps, cur)" by (cases "state ns")
  from h have "na \<in> set (nim_actions (ps, cur))" by (simp add: NimGame_def s)
  from nim_next_legal [OF this] obtain s' where
    "next_state (NimGame piles) (state ns) na = Inr s'" by (auto simp: NimGame_def s)
  from move_legal [OF h this]
  show "\<exists>s'. move (NimGame piles) ns na = (Inr s', ns\<lparr>state := s', current_player := snd s'\<rparr>)"
    by (auto simp: NimGame_def nim_player_def)
next
  assume h: "wf_board board_size (fst (state cs))
        \<and> ca \<in> set (actions (connectfour_game board_size) (state cs))"
  obtain b cur where s: "state cs = (b, cur)" by (cases "state cs")
  from h have wf: "wf_board board_size b" and
    a: "ca \<in> set (c4_actions board_size (b, cur))"
    and a': "ca \<in> set (actions (connectfour_game board_size) (state cs))"
    by (simp_all add: connectfour_game_def s)
  from c4_next_wf [OF wf a] obtain s' where
    "next_state (connectfour_game board_size) (state cs) ca = Inr s'"
    by (auto simp: connectfour_game_def s)
  from move_legal [OF a' this]
  show "\<exists>s'. move (connectfour_game board_size) cs ca
               = (Inr s', cs\<lparr>state := s', current_player := snd s'\<rparr>)"
    by (auto simp: connectfour_game_def c4_player_def)
next
  assume h: "r < length (fst (state ts)) \<and> c < length (fst (state ts) ! r)
        \<and> fst (state ts) ! r ! c \<noteq> 0"
  have "(int r, int c) \<notin> set (np_argwhere_zero (fst (state ts)))"
    using h by (auto simp: np_argwhere_zero_iff)
  then have "(int r, int c) \<notin> set (actions TicTacToeGame (state ts))"
    by (simp add: TicTacToeGame_def ttt_actions_def)
  then show "move TicTacToeGame ts (int r, int c) = (Inl ValueError, ts)"
    by (rule move_illegal)
qed

theorem move_raises_iff_illegal_witness:
  "''double'' \<notin> set (actions (HalvingGame 15) (state (new_session (HalvingGame 15))))
   \<and> move (HalvingGame 15) (new_session (HalvingGame 15)) ''double''
       = (Inl ValueError, new_session (HalvingGame 15))
   \<and> ''halve'' \<in> set (actions (HalvingGame 15) (state (new_session (HalvingGame 15))))
   \<and> (\<exists>s'. move (HalvingGame 15) (new_session (HalvingGame 15)) ''halve''
              = (Inr s', new_session (HalvingGame 15)\<lparr>state := s', current_player := snd s'\<rparr>))
   \<and> (1, 1) \<in> set (actions TicTacToeGame (state (new_session TicTacToeGame)))
   \<and> (\<exists>s'. move TicTacToeGame (new_session TicTacToeGame) (1, 1)
              = (Inr s', new_session TicTacToeGame\<lparr>state := s', current_player := snd s'\<rparr>))
   \<and> (3, 7) \<in> set (actions (NimGame [1, 3, 5, 7]) (state (new_session (NimGame [1, 3, 5, 7]))))
   \<and> (\<exists>s'. move (NimGame [1, 3, 5, 7]) (new_session (NimGame [1, 3, 5, 7])) (3, 7)
              = (Inr s', new_session (NimGame [1, 3, 5, 7])
                           \<lparr>state := s', current_player := snd s'\<rparr>))
   \<and> wf_board 4 (fst (state (new_session (connectfour_game 4))))
   \<and> 2 \<in> set (actions (connectfour_game 4) (state (new_session (connectfour_game 4))))
   \<and> (\<exists>s'. move (connectfour_game 4) (new_session (connectfour_game 4)) 2
              = (Inr s', new_session (connectfour_game 4)
                           \<lparr>state := s', current_player := snd s'\<rparr>))
   \<and> move TicTacToeGame
         \<lparr>state = ([[0, 0, 0], [0, 1, 0], [0, 0, 0]], - 1), current_player = - 1\<rparr> (1, 1)
       = (Inl ValueError,
          \<lparr>state = ([[0, 0, 0], [0, 1, 0], [0, 0, 0]], - 1), current_player = - 1\<rparr>)"
proof -
  have h: "''double'' \<notin> set (actions (HalvingGame 15) (state (new_session (HalvingGame 15))))"
    "''halve'' \<in> set (actions (HalvingGame 15) (state (new_session (HalvingGame 15))))"
    "(1, 1) \<in> set (actions TicTacToeGame (state (new_session TicTacToeGame)))"
    "(3, 7) \<in> set (actions (NimGame [1, 3, 5, 7]) (state (new_session (NimGame [1, 3, 5, 7]))))"
    "2 \<in> set (actions (connectfour_game 4) (state (new_session (connectfour_game 4))))"
    by code_simp+
  have w: "wf_board 4 (fst (state (new_session (connectfour_game 4))))"
    by (simp add: new_session_def connectfour_game_def wf_board_def np_zeros_def)
  have o: "(1::nat) < length (fst (state
        \<lparr>state = ([[0, 0, 0], [0, 1, 0], [0, 0, 0 :: int]], - 1 :: int), current_player = - 1\<rparr>))"
     "(1::nat) < length (fst (state
        \<lparr>state = ([[0, 0, 0], [0, 1, 0], [0, 0, 0 :: int]], - 1 :: int), current_player = - 1\<rparr>) ! 1)"
     "fst (state
        \<lparr>state = ([[0, 0, 0], [0, 1, 0], [0, 0, 0 :: int]], - 1 :: int), current_player = - 1\<rparr>)
        ! 1 ! 1 \<noteq> 0"
    by simp_all
  have 1: "move (HalvingGame 15) (new_session (HalvingGame 15)) ''double''
       = (Inl ValueError, new_session (HalvingGame 15))"
    and 2: "\<exists>s'. move (HalvingGame 15) (new_session (HalvingGame 15)) ''halve''
              = (Inr s', new_session (HalvingGame 15)\<lparr>state := s', current_player := snd s'\<rparr>)"
    using move_raises_iff_illegal [where a = "''double''" and g = "HalvingGame 15"
        and sess = "new_session (HalvingGame 15)" and ha = "''halve''" and n = 15
        and hs = "new_session (HalvingGame 15)" and ta = "(1, 1)"
        and ts = "new_session TicTacToeGame" and na = "(3, 7)" and piles = "[1, 3, 5, 7]"
        and ns = "new_session (NimGame [1, 3, 5, 7])" and board_size = 4
        and cs = "new_session (connectfour_game 4)" and ca = 2 and r = 1 and c = 1] h
    by blast+
  have 3: "\<exists>s'. move TicTacToeGame (new_session TicTacToeGame) (1, 1)
              = (Inr s', new_session TicTacToeGame\<lparr>state := s', current_player := snd s'\<rparr>)"
    and 4: "\<exists>s'. move (NimGame [1, 3, 5, 7]) (new_session (NimGame [1, 3, 5, 7])) (3, 7)
              = (Inr s', new_session (NimGame [1, 3, 5, 7])
                           \<lparr>state := s', current_player := snd s'\<rparr>)"
    and 5: "\<exists>s'. move (connectfour_game 4) (new_session (connectfour_game 4)) 2
              = (Inr s', new_session (connectfour_game 4)
                           \<lparr>state := s', current_player := snd s'\<rparr>)"
    using move_raises_iff_illegal [where a = "''double''" and g = "HalvingGame 15"
        and sess = "new_session (HalvingGame 15)" and ha = "''halve''" and n = 15
        and hs = "new_session (HalvingGame 15)" and ta = "(1, 1)"
        and ts = "new_session TicTacToeGame" and na = "(3, 7)" and piles = "[1, 3, 5, 7]"
        and ns = "new_session (NimGame [1, 3, 5, 7])" and board_size = 4
        and cs = "new_session (connectfour_game 4)" and ca = 2 and r = 1 and c = 1] h w
    by blast+
  have 6: "move TicTacToeGame
         \<lparr>state = ([[0, 0, 0], [0, 1, 0], [0, 0, 0]], - 1), current_player = - 1\<rparr> (1, 1)
       = (Inl ValueError,
          \<lparr>state = ([[0, 0, 0], [0, 1, 0], [0, 0, 0]], - 1), current_player = - 1\<rparr>)"
    using move_raises_iff_illegal [where a = "''double''" and g = "HalvingGame 15"
        and sess = "new_session (HalvingGame 15)" and ha = "''halve''" and n = 15
        and hs = "new_session (HalvingGame 15)" and ta = "(1, 1)"
        and ts = "\<lparr>state = ([[0, 0, 0], [0, 1, 0], [0, 0, 0]], - 1), current_player = - 1\<rparr>"
        and na = "(3, 7)" and piles = "[1, 3, 5, 7]"
        and ns = "new_session (NimGame [1, 3, 5, 7])" and board_size = 4
        and cs = "new_session (connectfour_game 4)" and ca = 2 and r = 1 and c = 1] o
    by simp
  show ?thesis
    using h w 1 2 3 4 5 6 by blast
qed

section \<open>What the transition function rejects\<close>






text \<open>
  The row and column of a Tic-Tac-Toe action go to numpy's indexing unchecked: an index
  from \<open>-3\<close> to \<open>-1\<close> counts from the end and yields a successor, and an index from \<open>3\<close> on
  raises \<open>IndexError\<close>. The amended claim says nothing about such indices.
\<close>

lemma ttt_next_index_examples:
  "ttt_next (np_zeros 3 3, 1) (- 1, - 1) = Inr ([[0, 0, 0], [0, 0, 0], [0, 0, 1]], - 1)
   \<and> (- 1, - 1) \<notin> set (ttt_actions (np_zeros 3 3, 1))
   \<and> ttt_next (np_zeros 3 3, 1) (3, 0) = Inl IndexError"
  by code_simp




section \<open>The nim-sum\<close>

lemma fold_xor: "fold (\<lambda>x acc. acc XOR x) xs (a::int) = a XOR xor_all xs"
proof (induction xs arbitrary: a)
  case Nil
  show ?case by (simp add: xor_all_def)
next
  case (Cons x xs)
  have "fold (\<lambda>x acc. acc XOR x) (x # xs) a = (a XOR x) XOR xor_all xs"
    using Cons.IH [of "a XOR x"] by simp
  moreover have "xor_all (x # xs) = x XOR xor_all xs"
    using Cons.IH [of x] by (simp add: xor_all_def)
  ultimately show ?case by (simp add: xor.assoc)
qed

lemma xor_all_Nil [simp]: "xor_all [] = 0"
  by (simp add: xor_all_def)

lemma xor_all_Cons: "xor_all (x # xs) = x XOR xor_all xs"
  using fold_xor [of xs x] by (simp add: xor_all_def)

lemma int_dtype_Int64: "0 \<le> x \<Longrightarrow> x < 2 ^ 63 \<Longrightarrow> int_dtype x = Int64"
  by (simp add: int_dtype_def)

lemma np_array_dtype_Int64:
  assumes "xs \<noteq> []" and "\<forall>p \<in> set xs. 0 \<le> p \<and> p < 2 ^ 63"
  shows "np_array_dtype xs = Int64"
proof -
  have "\<forall>d \<in> set (map int_dtype xs). d = Int64"
    using assms(2) by (simp add: int_dtype_Int64)
  then have "Object \<notin> set (map int_dtype xs)" "UInt64 \<notin> set (map int_dtype xs)"
    by blast+
  then show ?thesis using assms(1) unfolding np_array_dtype_def Let_def by simp
qed

lemma wrap_int64_id: "0 \<le> v \<Longrightarrow> v < 2 ^ 63 \<Longrightarrow> wrap_int64 v = v"
  by (simp add: wrap_int64_def)

lemma get_nim_sum_eq:
  "ps \<noteq> [] \<Longrightarrow> np_array_dtype ps \<noteq> Float64 \<Longrightarrow> get_nim_sum (ps, c) = Inr (xor_all ps)"
  by (cases ps) (simp_all add: get_nim_sum_def fold_xor xor_all_Cons)

lemma get_nim_sum_Int64:
  "ps \<noteq> [] \<Longrightarrow> \<forall>p \<in> set ps. 0 \<le> p \<and> p < 2 ^ 63 \<Longrightarrow> get_nim_sum (ps, c) = Inr (xor_all ps)"
  by (simp add: get_nim_sum_eq np_array_dtype_Int64)

lemma xor_all_update:
  "i < length xs \<Longrightarrow> xor_all (xs[i := v]) = xor_all xs XOR xs ! i XOR v"
proof (induction xs arbitrary: i)
  case Nil
  then show ?case by simp
next
  case (Cons x xs)
  show ?case
  proof (cases i)
    case 0
    then show ?thesis by (simp add: xor_all_Cons xor.commute xor.left_commute)
  next
    case (Suc j)
    then show ?thesis
      using Cons.IH [of j] Cons.prems by (simp add: xor_all_Cons xor.assoc)
  qed
qed

lemma xor_all_nonneg: "\<forall>p \<in> set xs. 0 \<le> p \<Longrightarrow> 0 \<le> xor_all xs"
  by (induction xs) (simp_all add: xor_all_Cons)

lemma bit_xor_all: "bit (xor_all xs) k \<Longrightarrow> \<exists>p \<in> set xs. bit p k"
  by (induction xs) (auto simp: xor_all_Cons bit_xor_iff)

lemma top_bit:
  assumes "0 < (x::int)"
  shows "\<exists>k. bit x k \<and> x < 2 ^ Suc k"
proof -
  have "1 \<le> nat x" using assms by simp
  from ex_power_ivl1 [of 2 "nat x", OF _ this] obtain k where
    k: "2 ^ k \<le> nat x" "nat x < 2 ^ (k + 1)" by auto
  have hi: "x < 2 ^ Suc k"
    using k(2) assms by (simp add: nat_less_iff)
  have "0 < nat x div 2 ^ k" using k(1) by (simp add: div_greater_zero_iff)
  moreover have "nat x div 2 ^ k < 2"
    using k(2) by (intro less_mult_imp_div_less) simp
  ultimately have "nat x div 2 ^ k = 1" by simp
  then have "bit (nat x) k" by (simp add: bit_iff_odd)
  then have "bit x k" by (simp add: bit_nat_iff)
  then show ?thesis using hi by blast
qed

lemma xor_less:
  assumes s: "0 \<le> (s::int)" and bs: "bit s k" and bx: "bit x k"
    and x: "0 \<le> x" "x < 2 ^ Suc k"
  shows "s XOR x < s"
proof -
  have dx: "drop_bit (Suc k) x = 0"
    using x by (simp add: drop_bit_eq_div)
  have d: "drop_bit (Suc k) (s XOR x) = drop_bit (Suc k) s"
    by (simp add: dx)
  have nb: "\<not> bit (s XOR x) k" using bs bx by (simp add: bit_xor_iff)
  have t1: "take_bit (Suc k) (s XOR x) = take_bit k (s XOR x)"
    unfolding take_bit_Suc_from_most [of k "s XOR x"] using nb by (simp del: take_bit_xor)
  have t2: "take_bit (Suc k) s = 2 ^ k + take_bit k s"
    using bs by (simp add: take_bit_Suc_from_most)
  have "take_bit k (s XOR x) < 2 ^ k" by (rule take_bit_int_less_exp)
  moreover have "0 \<le> take_bit k s" by simp
  ultimately have lt: "take_bit (Suc k) (s XOR x) < take_bit (Suc k) s"
    unfolding t1 t2 by linarith
  have "s XOR x = push_bit (Suc k) (drop_bit (Suc k) (s XOR x)) + take_bit (Suc k) (s XOR x)"
    by (simp only: bits_ident)
  also have "\<dots> < push_bit (Suc k) (drop_bit (Suc k) s) + take_bit (Suc k) s"
    unfolding d using lt by simp
  also have "\<dots> = s" by (simp only: bits_ident)
  finally show ?thesis .
qed

lemma exists_reducible:
  assumes nn: "\<forall>p \<in> set xs. 0 \<le> p" and nz: "xor_all xs \<noteq> 0"
  shows "\<exists>i < length xs. xs ! i XOR xor_all xs < xs ! i"
proof -
  have "0 < xor_all xs" using xor_all_nonneg [OF nn] nz by simp
  from top_bit [OF this] obtain k where k: "bit (xor_all xs) k" "xor_all xs < 2 ^ Suc k"
    by blast
  from bit_xor_all [OF k(1)] obtain p where p: "p \<in> set xs" "bit p k" by blast
  then obtain i where i: "i < length xs" "xs ! i = p" by (auto simp: in_set_conv_nth)
  have "0 \<le> p" using nn p(1) by simp
  from xor_less [OF this p(2) k(1) xor_all_nonneg [OF nn] k(2)]
  show ?thesis using i by auto
qed

lemma np_argmax_first:
  "True \<in> set bs \<Longrightarrow>
     np_argmax bs < length bs \<and> bs ! np_argmax bs \<and> (\<forall>j < np_argmax bs. \<not> bs ! j)"
proof (induction bs)
  case Nil
  then show ?case by simp
next
  case (Cons b bs)
  show ?case
  proof (cases b)
    case True
    then show ?thesis by simp
  next
    case False
    then have "True \<in> set bs" using Cons.prems by auto
    with Cons.IH have ih: "np_argmax bs < length bs" "bs ! np_argmax bs"
      "\<forall>j < np_argmax bs. \<not> bs ! j" by simp_all
    have "\<not> (b # bs) ! j" if "j < Suc (np_argmax bs)" for j
      using that False ih(3) by (cases j) simp_all
    then show ?thesis using False \<open>True \<in> set bs\<close> ih by simp
  qed
qed

lemma xor_eq_zero_int: "(a::int) XOR b = 0 \<longleftrightarrow> a = b"
proof
  assume "a XOR b = 0"
  then have "(a XOR b) XOR b = b" by simp
  then show "a = b" by (simp add: xor.assoc)
next
  assume "a = b"
  then show "a XOR b = 0" by simp
qed

lemma get_nim_sum_Inr: "get_nim_sum (ps, c) = Inr x \<Longrightarrow> ps \<noteq> [] \<and> x = xor_all ps"
  by (cases ps) (auto simp: get_nim_sum_def fold_xor xor_all_Cons split: if_splits)

lemma get_optimal_move_Int64:
  assumes sum: "get_nim_sum (piles, cur) = Inr x" and nz: "x \<noteq> 0"
    and dt: "np_array_dtype piles = Int64"
    and tr: "True \<in> set (map (\<lambda>(t, s). t < s) (zip (map (\<lambda>s. s XOR x) piles) piles))"
  shows "get_optimal_move (piles, cur)
    = Inr (Some (int (np_argmax (map (\<lambda>(t, s). t < s) (zip (map (\<lambda>s. s XOR x) piles) piles))),
        wrap_int64 (piles ! np_argmax (map (\<lambda>(t, s). t < s) (zip (map (\<lambda>s. s XOR x) piles) piles))
           - map (\<lambda>s. s XOR x) piles
               ! np_argmax (map (\<lambda>(t, s). t < s) (zip (map (\<lambda>s. s XOR x) piles) piles)))))"
  unfolding get_optimal_move_def Let_def fst_conv
  by (simp only: sum sum.case nz if_False tr if_True dt refl)

lemma update_in_range:
  assumes rng: "\<forall>p \<in> set xs. 0 \<le> p \<and> p < (2::int) ^ 63"
    and v: "0 \<le> v" "v < 2 ^ 63"
  shows "\<forall>p \<in> set (xs[i := v]). 0 \<le> p \<and> p < 2 ^ 63"
proof
  fix p assume "p \<in> set (xs[i := v])"
  then have "p \<in> insert v (set xs)"
    using set_update_subset_insert [of xs i v] by (rule rev_subsetD)
  then have "p = v \<or> p \<in> set xs" by (simp only: insert_iff)
  then show "0 \<le> p \<and> p < 2 ^ 63"
  proof
    assume e: "p = v"
    show ?thesis unfolding e by (rule conjI [OF v])
  next
    assume "p \<in> set xs"
    with rng show ?thesis by (rule bspec)
  qed
qed

lemma optimal_move_reduces:
  assumes ne: "piles \<noteq> []"
    and rng: "\<forall>p \<in> set piles. 0 \<le> p \<and> p < 2 ^ 63"
    and nz: "xor_all piles \<noteq> 0"
  shows "\<exists>i. i < length piles \<and> (piles ! i XOR xor_all piles) < piles ! i
           \<and> (\<forall>j < i. \<not> (piles ! j XOR xor_all piles) < piles ! j)
           \<and> get_optimal_move (piles, cur)
               = Inr (Some (int i, piles ! i - (piles ! i XOR xor_all piles)))
           \<and> (int i, piles ! i - (piles ! i XOR xor_all piles)) \<in> set (nim_actions (piles, cur))
           \<and> (\<exists>s'. nim_next (piles, cur) (int i, piles ! i - (piles ! i XOR xor_all piles)) = Inr s'
                  \<and> get_nim_sum s' = Inr 0)"
proof -
  let ?x = "xor_all piles"
  have nn: "\<forall>p \<in> set piles. 0 \<le> p" using rng by blast
  have sum: "get_nim_sum (piles, cur) = Inr ?x"
    by (rule get_nim_sum_Int64 [OF ne rng])
  have dt: "np_array_dtype piles = Int64" by (rule np_array_dtype_Int64 [OF ne rng])
  let ?targets = "map (\<lambda>s. s XOR ?x) piles"
  let ?valid = "map (\<lambda>(t, s). t < s) (zip ?targets piles)"
  have len: "length ?valid = length piles" by simp
  have nth: "?valid ! j = (piles ! j XOR ?x < piles ! j)" if "j < length piles" for j
    using that by simp
  from exists_reducible [OF nn nz] obtain i0 where
    i0: "i0 < length piles" "piles ! i0 XOR ?x < piles ! i0" by blast
  have "?valid ! i0 \<in> set ?valid" using i0(1) len by (intro nth_mem) simp
  then have tr: "True \<in> set ?valid" using nth [OF i0(1)] i0(2) by simp
  define i where "i = np_argmax ?valid"
  have i': "i < length ?valid" "?valid ! i" "\<forall>j < i. \<not> ?valid ! j"
    using np_argmax_first [OF tr] unfolding i_def by blast+
  have i: "i < length piles" using i'(1) by simp
  have red: "piles ! i XOR ?x < piles ! i" using i'(2) nth [OF i] by simp
  have first: "\<forall>j < i. \<not> (piles ! j XOR ?x) < piles ! j"
  proof (intro allI impI)
    fix j assume j: "j < i"
    then have "j < length piles" using i by simp
    from nth [OF this] i'(3) j show "\<not> (piles ! j XOR ?x) < piles ! j" by blast
  qed
  have "piles ! i \<in> set piles" using i by (rule nth_mem)
  with rng have pi: "0 \<le> piles ! i" "piles ! i < 2 ^ 63" by blast+
  have "0 \<le> ?x" using xor_all_nonneg [OF nn] .
  with pi(1) have t0: "0 \<le> piles ! i XOR ?x" by simp
  have tlt: "piles ! i XOR ?x < 2 ^ 63" using red pi(2) by (rule less_trans)
  have k: "1 \<le> piles ! i - (piles ! i XOR ?x)" "piles ! i - (piles ! i XOR ?x) \<le> piles ! i"
    using red t0 by linarith+
  have d0: "0 \<le> piles ! i - (piles ! i XOR ?x)" using k(1) by linarith
  have d1: "piles ! i - (piles ! i XOR ?x) < 2 ^ 63" using k(2) pi(2) by (rule le_less_trans)
  have wr: "wrap_int64 (piles ! i - (piles ! i XOR ?x)) = piles ! i - (piles ! i XOR ?x)"
    using d0 d1 by (rule wrap_int64_id)
  have ti: "?targets ! i = piles ! i XOR ?x" using i by simp
  have "get_optimal_move (piles, cur)
      = Inr (Some (int i, wrap_int64 (piles ! i - ?targets ! i)))"
    unfolding i_def by (rule get_optimal_move_Int64 [OF sum nz dt tr])
  then have opt:
    "get_optimal_move (piles, cur) = Inr (Some (int i, piles ! i - (piles ! i XOR ?x)))"
    by (simp only: ti wr)
  have legal: "(int i, piles ! i - (piles ! i XOR ?x)) \<in> set (nim_actions (piles, cur))"
    unfolding nim_actions_iff using i k by blast
  have "\<not> (piles ! i - (piles ! i XOR ?x) < 1 \<or> piles ! i - (piles ! i XOR ?x) > piles ! i)"
    using k by linarith
  then have nx: "nim_next (piles, cur) (int i, piles ! i - (piles ! i XOR ?x))
      = Inr (piles[i := piles ! i XOR ?x], - cur)"
    using i unfolding nim_next_def Let_def by (simp del: xor_nonnegative_int_iff)
  have z: "xor_all (piles[i := piles ! i XOR ?x]) = 0"
    unfolding xor_all_update [OF i]
    by (simp add: xor.commute xor.left_commute)
  have ne': "piles[i := piles ! i XOR ?x] \<noteq> []" using ne by simp
  have "get_nim_sum (piles[i := piles ! i XOR ?x], - cur)
      = Inr (xor_all (piles[i := piles ! i XOR ?x]))"
    by (rule get_nim_sum_Int64 [OF ne' update_in_range [OF rng t0 tlt]])
  then have s0: "get_nim_sum (piles[i := piles ! i XOR ?x], - cur) = Inr 0"
    by (simp only: z)
  have "\<exists>s'. nim_next (piles, cur) (int i, piles ! i - (piles ! i XOR ?x)) = Inr s'
           \<and> get_nim_sum s' = Inr 0"
    using nx s0 by blast
  with i red first opt legal show ?thesis by blast
qed

lemma zero_sum_moves:
  assumes ne: "piles \<noteq> []"
    and rng: "\<forall>p \<in> set piles. 0 \<le> p \<and> p < 2 ^ 63"
    and x: "xor_all piles = 0"
    and a: "a \<in> set (nim_actions (piles, cur))"
  shows "\<exists>s' y. nim_next (piles, cur) a = Inr s' \<and> get_nim_sum s' = Inr y \<and> y \<noteq> 0"
proof -
  from nim_next_legal [OF a] obtain i k where
    ik: "i < length piles" "1 \<le> k" "k \<le> piles ! i" and
    nx: "nim_next (piles, cur) a = Inr (piles[i := piles ! i - k], - cur)"
    by blast
  have "piles ! i \<in> set piles" using ik(1) by (rule nth_mem)
  with rng have pi: "0 \<le> piles ! i" "piles ! i < 2 ^ 63" by blast+
  have "piles ! i \<noteq> piles ! i - k" using ik(2) by simp
  then have "piles ! i XOR (piles ! i - k) \<noteq> 0" by (simp add: xor_eq_zero_int)
  then have nz: "xor_all (piles[i := piles ! i - k]) \<noteq> 0"
    unfolding xor_all_update [OF ik(1)] x by simp
  have ne': "piles[i := piles ! i - k] \<noteq> []" using ne by simp
  have v0: "0 \<le> piles ! i - k" using ik(3) by linarith
  have "piles ! i - k \<le> piles ! i" using ik(2) by linarith
  then have v1: "piles ! i - k < 2 ^ 63" using pi(2) by (rule le_less_trans)
  have "get_nim_sum (piles[i := piles ! i - k], - cur)
      = Inr (xor_all (piles[i := piles ! i - k]))"
    by (rule get_nim_sum_Int64 [OF ne' update_in_range [OF rng v0 v1]])
  with nz nx show ?thesis by blast
qed

text \<open>
  On a list of at least one pile whose sizes are all from \<open>0\<close> to \<open>2^63 - 1\<close>, where
  \<open>np.array\<close> makes an \<open>int64\<close> array, the oracle does what the nim-sum strategy asks:
  \<open>get_nim_sum\<close> returns the exclusive or \<open>x\<close> of all piles; if \<open>x\<close> is not \<open>0\<close>,
  \<open>get_optimal_move\<close> returns the action on the first pile, in index order, whose target
  (its size exclusive-or \<open>x\<close>) is strictly below its size, removing the difference, the action
  is legal, \<open>next\<close> accepts it and the successor has nim-sum \<open>0\<close>; if \<open>x\<close> is \<open>0\<close>,
  \<open>get_optimal_move\<close> returns \<open>None\<close> and every legal action leads to a successor whose
  nim-sum is not \<open>0\<close>.
\<close>

lemma nim_sum_strategy_int64:
  assumes ne: "piles \<noteq> []"
    and rng: "\<forall>p \<in> set piles. 0 \<le> p \<and> p < 2 ^ 63"
  shows "get_nim_sum (piles, cur) = Inr (xor_all piles)"
    and "xor_all piles \<noteq> 0 \<Longrightarrow>
      \<exists>i. i < length piles \<and> (piles ! i XOR xor_all piles) < piles ! i
           \<and> (\<forall>j < i. \<not> (piles ! j XOR xor_all piles) < piles ! j)
           \<and> get_optimal_move (piles, cur)
               = Inr (Some (int i, piles ! i - (piles ! i XOR xor_all piles)))
           \<and> (int i, piles ! i - (piles ! i XOR xor_all piles)) \<in> set (nim_actions (piles, cur))
           \<and> (\<exists>s'. nim_next (piles, cur) (int i, piles ! i - (piles ! i XOR xor_all piles)) = Inr s'
                  \<and> get_nim_sum s' = Inr 0)"
    and "xor_all piles = 0 \<Longrightarrow>
      get_optimal_move (piles, cur) = Inr None
      \<and> (\<forall>a \<in> set (nim_actions (piles, cur)).
            \<exists>s' y. nim_next (piles, cur) a = Inr s' \<and> get_nim_sum s' = Inr y \<and> y \<noteq> 0)"
proof -
  show s: "get_nim_sum (piles, cur) = Inr (xor_all piles)"
    by (rule get_nim_sum_Int64 [OF ne rng])
  show "\<exists>i. i < length piles \<and> (piles ! i XOR xor_all piles) < piles ! i
           \<and> (\<forall>j < i. \<not> (piles ! j XOR xor_all piles) < piles ! j)
           \<and> get_optimal_move (piles, cur)
               = Inr (Some (int i, piles ! i - (piles ! i XOR xor_all piles)))
           \<and> (int i, piles ! i - (piles ! i XOR xor_all piles)) \<in> set (nim_actions (piles, cur))
           \<and> (\<exists>s'. nim_next (piles, cur) (int i, piles ! i - (piles ! i XOR xor_all piles)) = Inr s'
                  \<and> get_nim_sum s' = Inr 0)"
    if "xor_all piles \<noteq> 0"
    by (rule optimal_move_reduces [OF ne rng that])
  show "get_optimal_move (piles, cur) = Inr None
      \<and> (\<forall>a \<in> set (nim_actions (piles, cur)).
            \<exists>s' y. nim_next (piles, cur) a = Inr s' \<and> get_nim_sum s' = Inr y \<and> y \<noteq> 0)"
    if z: "xor_all piles = 0"
  proof (intro conjI ballI)
    show "get_optimal_move (piles, cur) = Inr None"
      using s z by (simp add: get_optimal_move_def)
  next
    fix a assume "a \<in> set (nim_actions (piles, cur))"
    then show "\<exists>s' y. nim_next (piles, cur) a = Inr s' \<and> get_nim_sum s' = Inr y \<and> y \<noteq> 0"
      by (rule zero_sum_moves [OF ne rng z])
  qed
qed

lemma nim_examples:
  "get_optimal_move ([1, 3, 5, 6], 1) = Inr (Some (0, 1))"
  "nim_next ([1, 3, 5, 6], 1) (0, 1) = Inr ([0, 3, 5, 6], - 1)"
  "get_nim_sum ([0, 3, 5, 6], - 1) = Inr 0"
  "get_nim_sum ([1, 3, 5, 7], 1) = Inr 0"
  "get_optimal_move ([1, 3, 5, 7], 1) = Inr None"
  "get_optimal_move ([9223372036854775808, 9223372036854775813], 1) = Inr (Some (1, 5))"
  "get_optimal_move ([18446744073709551616, 1], 1) = Inr (Some (0, 18446744073709551615))"
  by code_simp+

text \<open>
  Claim C4. The claim asks of every Nim state with nim-sum \<open>0\<close> that \<open>get_optimal_move\<close>
  return \<open>None\<close>, and of every state with another nim-sum that it return a legal action
  whose successor has nim-sum \<open>0\<close>. The code does neither on the lists that \<open>np.array\<close>
  turns into a \<open>float64\<close> array. The state without piles has nim-sum \<open>0\<close>, and both
  \<open>get_nim_sum\<close> and \<open>get_optimal_move\<close> raise \<open>TypeError\<close> on it. The state with the
  piles \<open>2^63\<close> and \<open>1\<close> has the nim-sum \<open>2^63 + 1\<close>; the first pile has the target \<open>1\<close>,
  \<open>next\<close> accepts the removal of \<open>2^63 - 1\<close> objects from it and the successor \<open>[1, 1]\<close>
  has nim-sum \<open>0\<close>; and again both methods raise \<open>TypeError\<close>.
\<close>

theorem nim_oracle_raises_on_float_arrays:
  "xor_all [] = 0
   \<and> get_nim_sum ([], 1) = Inl TypeError
   \<and> get_optimal_move ([], 1) = Inl TypeError
   \<and> xor_all [2 ^ 63, 1] = 2 ^ 63 + 1
   \<and> 2 ^ 63 XOR xor_all [2 ^ 63, 1] = 1
   \<and> nim_next ([2 ^ 63, 1], 1) (0, 2 ^ 63 - 1) = Inr ([1, 1], - 1)
   \<and> get_nim_sum ([1, 1], - 1) = Inr 0
   \<and> get_nim_sum ([2 ^ 63, 1], 1) = Inl TypeError
   \<and> get_optimal_move ([2 ^ 63, 1], 1) = Inl TypeError"
proof -
  have a: "xor_all [] = 0"
    "get_nim_sum ([], 1) = Inl TypeError" "get_optimal_move ([], 1) = Inl TypeError"
    by code_simp+
  have b: "xor_all [2 ^ 63, 1] = 2 ^ 63 + 1" "2 ^ 63 XOR xor_all [2 ^ 63, 1] = 1"
    "nim_next ([2 ^ 63, 1], 1) (0, 2 ^ 63 - 1) = Inr ([1, 1], - 1)"
    "get_nim_sum ([1, 1], - 1) = Inr 0"
    "get_nim_sum ([2 ^ 63, 1], 1) = Inl TypeError"
    "get_optimal_move ([2 ^ 63, 1], 1) = Inl TypeError"
    by code_simp+
  show ?thesis using a b by blast
qed

section \<open>Lines and winners\<close>

lemma list3: "length xs = 3 \<Longrightarrow> \<exists>a b c. xs = [a, b, c]"
  by (cases xs; cases "tl xs"; cases "tl (tl xs)") auto

lemma wf_board_3:
  assumes "wf_board 3 b"
  shows "\<exists>a0 a1 a2 b0 b1 b2 c0 c1 c2. b = [[a0, a1, a2], [b0, b1, b2], [c0, c1, c2]]"
proof -
  from assms obtain r0 r1 r2 where b: "b = [r0, r1, r2]"
    using list3 [of b] by (auto simp: wf_board_def)
  with assms have "length r0 = 3" "length r1 = 3" "length r2 = 3"
    by (simp_all add: wf_board_def)
  then show ?thesis using list3 [of r0] list3 [of r1] list3 [of r2] b by metis
qed

lemma sum3_pos:
  "(a = 0 \<or> a = 1 \<or> a = - 1) \<Longrightarrow> (b = 0 \<or> b = 1 \<or> b = - 1) \<Longrightarrow> (c = 0 \<or> c = 1 \<or> c = - 1) \<Longrightarrow>
   (a + b + c = (3::int)) = (a = 1 \<and> b = 1 \<and> c = 1)"
  by auto

lemma sum3_neg:
  "(a = 0 \<or> a = 1 \<or> a = - 1) \<Longrightarrow> (b = 0 \<or> b = 1 \<or> b = - 1) \<Longrightarrow> (c = 0 \<or> c = 1 \<or> c = - 1) \<Longrightarrow>
   (a + b + c = (- 3::int)) = (a = - 1 \<and> b = - 1 \<and> c = - 1)"
  by auto

lemma segments_3_3:
  "segments 3 3 =
    [[(0, 0), (0, 1), (0, 2)], [(0, 0), (1, 0), (2, 0)], [(0, 0), (1, 1), (2, 2)],
     [(0, 2), (1, 1), (2, 0)], [(0, 1), (1, 1), (2, 1)], [(0, 2), (1, 2), (2, 2)],
     [(1, 0), (1, 1), (1, 2)], [(2, 0), (2, 1), (2, 2)]]"
  by code_simp


lemma cells_ok_3:
  "cells_ok [[a0, a1, a2], [b0, b1, b2], [c0, c1, c2]] \<longleftrightarrow>
     (a0 = 0 \<or> a0 = 1 \<or> a0 = - 1) \<and> (a1 = 0 \<or> a1 = 1 \<or> a1 = - 1) \<and> (a2 = 0 \<or> a2 = 1 \<or> a2 = - 1) \<and>
     (b0 = 0 \<or> b0 = 1 \<or> b0 = - 1) \<and> (b1 = 0 \<or> b1 = 1 \<or> b1 = - 1) \<and> (b2 = 0 \<or> b2 = 1 \<or> b2 = - 1) \<and>
     (c0 = 0 \<or> c0 = 1 \<or> c0 = - 1) \<and> (c1 = 0 \<or> c1 = 1 \<or> c1 = - 1) \<and> (c2 = 0 \<or> c2 = 1 \<or> c2 = - 1)"
  by (simp add: cells_ok_def)

lemma line_sums_3:
  "line_sums [[a0, a1, a2], [b0, b1, b2], [c0, c1, c2]] =
     [a0 + a1 + a2, b0 + b1 + b2, c0 + c1 + c2,
      a0 + b0 + c0, a1 + b1 + c1, a2 + b2 + c2,
      a0 + b1 + c2, a2 + b1 + c0]"
  by (simp add: line_sums_def np_sum_axis1_def np_sum_axis0_def np_trace_def np_fliplr_def
      ncols_def eval_nat_numeral)

lemma has_line_3:
  "has_line 3 3 [[a0, a1, a2], [b0, b1, b2], [c0, c1, c2]] p \<longleftrightarrow>
     (a0 = p \<and> a1 = p \<and> a2 = p) \<or> (b0 = p \<and> b1 = p \<and> b2 = p) \<or> (c0 = p \<and> c1 = p \<and> c2 = p) \<or>
     (a0 = p \<and> b0 = p \<and> c0 = p) \<or> (a1 = p \<and> b1 = p \<and> c1 = p) \<or> (a2 = p \<and> b2 = p \<and> c2 = p) \<or>
     (a0 = p \<and> b1 = p \<and> c2 = p) \<or> (a2 = p \<and> b1 = p \<and> c0 = p)"
  unfolding has_line_def segments_3_3 by (simp add: owns_line_def disj_ac)

lemma ttt_lines_pos:
  assumes "wf_board 3 b" "cells_ok b"
  shows "3 \<in> set (line_sums b) \<longleftrightarrow> has_line 3 3 b 1"
proof -
  from wf_board_3 [OF assms(1)] obtain a0 a1 a2 b0 b1 b2 c0 c1 c2 where
    b: "b = [[a0, a1, a2], [b0, b1, b2], [c0, c1, c2]]" by blast
  have c: "(a0 = 0 \<or> a0 = 1 \<or> a0 = - 1)" "(a1 = 0 \<or> a1 = 1 \<or> a1 = - 1)" "(a2 = 0 \<or> a2 = 1 \<or> a2 = - 1)"
     "(b0 = 0 \<or> b0 = 1 \<or> b0 = - 1)" "(b1 = 0 \<or> b1 = 1 \<or> b1 = - 1)" "(b2 = 0 \<or> b2 = 1 \<or> b2 = - 1)"
     "(c0 = 0 \<or> c0 = 1 \<or> c0 = - 1)" "(c1 = 0 \<or> c1 = 1 \<or> c1 = - 1)" "(c2 = 0 \<or> c2 = 1 \<or> c2 = - 1)"
    using assms(2) unfolding b cells_ok_3 by simp_all
  show ?thesis
    unfolding b line_sums_3 has_line_3
    by (simp add: sum3_pos c eq_commute [of "3::int"])
qed


lemma ttt_lines_neg:
  assumes "wf_board 3 b" "cells_ok b"
  shows "- 3 \<in> set (line_sums b) \<longleftrightarrow> has_line 3 3 b (- 1)"
proof -
  from wf_board_3 [OF assms(1)] obtain a0 a1 a2 b0 b1 b2 c0 c1 c2 where
    b: "b = [[a0, a1, a2], [b0, b1, b2], [c0, c1, c2]]" by blast
  have c: "(a0 = 0 \<or> a0 = 1 \<or> a0 = - 1)" "(a1 = 0 \<or> a1 = 1 \<or> a1 = - 1)" "(a2 = 0 \<or> a2 = 1 \<or> a2 = - 1)"
     "(b0 = 0 \<or> b0 = 1 \<or> b0 = - 1)" "(b1 = 0 \<or> b1 = 1 \<or> b1 = - 1)" "(b2 = 0 \<or> b2 = 1 \<or> b2 = - 1)"
     "(c0 = 0 \<or> c0 = 1 \<or> c0 = - 1)" "(c1 = 0 \<or> c1 = 1 \<or> c1 = - 1)" "(c2 = 0 \<or> c2 = 1 \<or> c2 = - 1)"
    using assms(2) unfolding b cells_ok_3 by simp_all
  show ?thesis
    unfolding b line_sums_3 has_line_3
    by (simp add: sum3_neg c eq_commute [of "- 3::int"])
qed


lemma ttt_winner_iff:
  assumes "wf_board 3 b" "cells_ok b"
  shows "ttt_check_winner b = Some 1 \<longleftrightarrow> has_line 3 3 b 1"
    and "ttt_check_winner b = Some (- 1) \<longleftrightarrow> \<not> has_line 3 3 b 1 \<and> has_line 3 3 b (- 1)"
    and "ttt_check_winner b = None \<longleftrightarrow> \<not> has_line 3 3 b 1 \<and> \<not> has_line 3 3 b (- 1)"
  using ttt_lines_pos [OF assms] ttt_lines_neg [OF assms]
  by (simp_all add: ttt_check_winner_def Let_def)

lemma cells_ok_place:
  assumes ok: "cells_ok b" and x: "x = 0 \<or> x = 1 \<or> x = - 1"
  shows "cells_ok (b[r := (b ! r)[c := x]])"
  unfolding cells_ok_def
proof (intro ballI)
  fix row y assume row: "row \<in> set (b[r := (b ! r)[c := x]])" and y: "y \<in> set row"
  have "row \<in> set b \<or> (row = (b ! r)[c := x] \<and> r < length b)"
  proof (cases "r < length b")
    case True
    from row have "row \<in> insert ((b ! r)[c := x]) (set b)"
      using set_update_subset_insert by fastforce
    then show ?thesis using True by auto
  next
    case False
    then have "b[r := (b ! r)[c := x]] = b" by (intro list_update_beyond) simp
    then show ?thesis using row by simp
  qed
  then consider "row \<in> set b" | "row = (b ! r)[c := x]" "r < length b"
    by blast
  then show "y = 0 \<or> y = 1 \<or> y = - 1"
  proof cases
    case 1
    then show ?thesis using ok y by (auto simp: cells_ok_def)
  next
    case 2
    then have "y \<in> insert x (set (b ! r))"
      using y set_update_subset_insert by fastforce
    moreover have "b ! r \<in> set b" using 2(2) by simp
    ultimately show ?thesis using ok x by (auto simp: cells_ok_def)
  qed
qed

lemma owns_line_place:
  assumes r: "r < length b" and c: "c < length (b ! r)" and q: "q \<noteq> x"
    and own: "owns_line (b[r := (b ! r)[c := x]]) q line"
  shows "owns_line b q line"
  unfolding owns_line_def list_all_iff
proof
  fix rc assume rc: "rc \<in> set line"
  then have v: "b[r := (b ! r)[c := x]] ! fst rc ! snd rc = q"
    using own by (simp add: owns_line_def list_all_iff)
  show "b ! fst rc ! snd rc = q"
  proof (cases "fst rc = r")
    case False
    then show ?thesis using v by simp
  next
    case True
    then have v': "(b ! r)[c := x] ! snd rc = q" using v r by simp
    show ?thesis
    proof (cases "snd rc = c")
      case False
      then show ?thesis using v' True by simp
    next
      case sc: True
      then have "x = q" using v' c by simp
      then show ?thesis using q by simp
    qed
  qed
qed

lemma has_line_place:
  assumes "r < length b" "c < length (b ! r)" "q \<noteq> x"
    and "has_line n len (b[r := (b ! r)[c := x]]) q"
  shows "has_line n len b q"
  using assms owns_line_place [OF assms(1-3)]
  unfolding has_line_def list_ex_iff by blast

lemma board_inv_place:
  assumes inv: "board_inv n len (b, cur)"
    and none: "\<not> has_line n len b 1" "\<not> has_line n len b (- 1)"
    and r: "r < n" and c: "c < n"
  shows "board_inv n len (b[r := (b ! r)[c := cur]], - cur)"
proof -
  have wf: "wf_board n b" and ok: "cells_ok b" and cur: "cur = 1 \<or> cur = - 1"
    using inv by (simp_all add: board_inv_def)
  have rl: "r < length b" "c < length (b ! r)" using wf r c by (auto simp: wf_board_def)
  let ?b' = "b[r := (b ! r)[c := cur]]"
  have "\<not> has_line n len ?b' (- cur)"
  proof
    assume h: "has_line n len ?b' (- cur)"
    have "- cur \<noteq> cur" using cur by auto
    from has_line_place [OF rl this h] show False using none cur by auto
  qed
  then have "\<not> (has_line n len ?b' 1 \<and> has_line n len ?b' (- 1))"
    using cur by auto
  moreover have "cells_ok ?b'" using cells_ok_place [OF ok] cur by blast
  moreover have "wf_board n ?b'" using wf_board_place [OF wf r] .
  ultimately show ?thesis using cur by (auto simp: board_inv_def)
qed

lemma ttt_initial_inv: "board_inv 3 3 (initial_state TicTacToeGame)"
proof -
  have "\<not> has_line 3 3 (np_zeros 3 3) 1" by code_simp
  moreover have "wf_board 3 (np_zeros 3 3)" "cells_ok (np_zeros 3 3)"
    by (simp_all add: wf_board_def cells_ok_def np_zeros_def)
  ultimately show ?thesis by (simp add: board_inv_def TicTacToeGame_def)
qed

lemma ttt_reachable_inv: "reachable TicTacToeGame s \<Longrightarrow> board_inv 3 3 s"
proof (induction rule: reachable.induct)
  case reachable_initial
  show ?case by (rule ttt_initial_inv)
next
  case (reachable_step s a s')
  obtain b cur where s: "s = (b, cur)" by (cases s)
  have inv: "board_inv 3 3 (b, cur)" using reachable_step.IH by (simp add: s)
  then have wf: "wf_board 3 b" and ok: "cells_ok b" by (simp_all add: board_inv_def)
  have a: "a \<in> set (ttt_actions (b, cur))"
    using reachable_step.hyps(2) by (simp add: TicTacToeGame_def s)
  then have "\<not> ttt_is_terminal (b, cur)" by (auto simp: ttt_actions_def split: if_splits)
  then have "ttt_check_winner b = None" by (auto simp: ttt_is_terminal_def split: if_splits)
  then have none: "\<not> has_line 3 3 b 1" "\<not> has_line 3 3 b (- 1)"
    using ttt_winner_iff(3) [OF wf ok] by simp_all
  from ttt_next_legal [OF a] obtain r c where
    rc: "r < length b" "c < length (b ! r)" and
    nx: "ttt_next (b, cur) a = Inr (b[r := (b ! r)[c := cur]], - cur)"
    by blast
  have "r < 3" "c < 3" using rc wf by (auto simp: wf_board_def)
  from board_inv_place [OF inv none this]
  show ?case using nx reachable_step.hyps(3) by (simp add: TicTacToeGame_def s)
qed

lemma list4: "length xs = 4 \<Longrightarrow> \<exists>a b c d. xs = [a, b, c, d]"
  by (cases xs; cases "tl xs"; cases "tl (tl xs)"; cases "tl (tl (tl xs))") auto

lemma wf_board_4:
  assumes "wf_board 4 b"
  shows "\<exists>a0 a1 a2 a3 b0 b1 b2 b3 c0 c1 c2 c3 d0 d1 d2 d3.
           b = [[a0, a1, a2, a3], [b0, b1, b2, b3], [c0, c1, c2, c3], [d0, d1, d2, d3]]"
proof -
  from assms obtain r0 r1 r2 r3 where b: "b = [r0, r1, r2, r3]"
    using list4 [of b] by (auto simp: wf_board_def)
  with assms have l: "length r0 = 4" "length r1 = 4" "length r2 = 4" "length r3 = 4"
    by (simp_all add: wf_board_def)
  from list4 [OF l(1)] obtain a0 a1 a2 a3 where r0: "r0 = [a0, a1, a2, a3]" by blast
  from list4 [OF l(2)] obtain b0 b1 b2 b3 where r1: "r1 = [b0, b1, b2, b3]" by blast
  from list4 [OF l(3)] obtain c0 c1 c2 c3 where r2: "r2 = [c0, c1, c2, c3]" by blast
  from list4 [OF l(4)] obtain d0 d1 d2 d3 where r3: "r3 = [d0, d1, d2, d3]" by blast
  show ?thesis unfolding b r0 r1 r2 r3 by blast
qed

lemma sum4_pos:
  "(a = 0 \<or> a = 1 \<or> a = - 1) \<Longrightarrow> (b = 0 \<or> b = 1 \<or> b = - 1) \<Longrightarrow> (c = 0 \<or> c = 1 \<or> c = - 1) \<Longrightarrow>
   (d = 0 \<or> d = 1 \<or> d = - 1) \<Longrightarrow>
   (a + b + c + d = (4::int)) = (a = 1 \<and> b = 1 \<and> c = 1 \<and> d = 1)"
  by auto

lemma sum4_neg:
  "(a = 0 \<or> a = 1 \<or> a = - 1) \<Longrightarrow> (b = 0 \<or> b = 1 \<or> b = - 1) \<Longrightarrow> (c = 0 \<or> c = 1 \<or> c = - 1) \<Longrightarrow>
   (d = 0 \<or> d = 1 \<or> d = - 1) \<Longrightarrow>
   (a + b + c + d = (- 4::int)) = (a = - 1 \<and> b = - 1 \<and> c = - 1 \<and> d = - 1)"
  by auto

lemma segments_4_4:
  "segments 4 4 =
    [[(0, 0), (0, 1), (0, 2), (0, 3)], [(0, 0), (1, 0), (2, 0), (3, 0)],
     [(0, 0), (1, 1), (2, 2), (3, 3)], [(0, 3), (1, 2), (2, 1), (3, 0)],
     [(0, 1), (1, 1), (2, 1), (3, 1)], [(0, 2), (1, 2), (2, 2), (3, 2)],
     [(0, 3), (1, 3), (2, 3), (3, 3)], [(1, 0), (1, 1), (1, 2), (1, 3)],
     [(2, 0), (2, 1), (2, 2), (2, 3)], [(3, 0), (3, 1), (3, 2), (3, 3)]]"
  by code_simp

lemma cells_ok_4:
  "cells_ok [[a0, a1, a2, a3], [b0, b1, b2, b3], [c0, c1, c2, c3], [d0, d1, d2, d3]] \<longleftrightarrow>
     (a0 = 0 \<or> a0 = 1 \<or> a0 = - 1) \<and> (a1 = 0 \<or> a1 = 1 \<or> a1 = - 1) \<and>
     (a2 = 0 \<or> a2 = 1 \<or> a2 = - 1) \<and> (a3 = 0 \<or> a3 = 1 \<or> a3 = - 1) \<and>
     (b0 = 0 \<or> b0 = 1 \<or> b0 = - 1) \<and> (b1 = 0 \<or> b1 = 1 \<or> b1 = - 1) \<and>
     (b2 = 0 \<or> b2 = 1 \<or> b2 = - 1) \<and> (b3 = 0 \<or> b3 = 1 \<or> b3 = - 1) \<and>
     (c0 = 0 \<or> c0 = 1 \<or> c0 = - 1) \<and> (c1 = 0 \<or> c1 = 1 \<or> c1 = - 1) \<and>
     (c2 = 0 \<or> c2 = 1 \<or> c2 = - 1) \<and> (c3 = 0 \<or> c3 = 1 \<or> c3 = - 1) \<and>
     (d0 = 0 \<or> d0 = 1 \<or> d0 = - 1) \<and> (d1 = 0 \<or> d1 = 1 \<or> d1 = - 1) \<and>
     (d2 = 0 \<or> d2 = 1 \<or> d2 = - 1) \<and> (d3 = 0 \<or> d3 = 1 \<or> d3 = - 1)"
  by (simp add: cells_ok_def)

lemma line_sums_4:
  "line_sums [[a0, a1, a2, a3], [b0, b1, b2, b3], [c0, c1, c2, c3], [d0, d1, d2, d3]] =
     [a0 + a1 + a2 + a3, b0 + b1 + b2 + b3, c0 + c1 + c2 + c3, d0 + d1 + d2 + d3,
      a0 + b0 + c0 + d0, a1 + b1 + c1 + d1, a2 + b2 + c2 + d2, a3 + b3 + c3 + d3,
      a0 + b1 + c2 + d3, a3 + b2 + c1 + d0]"
  by (simp add: line_sums_def np_sum_axis1_def np_sum_axis0_def np_trace_def np_fliplr_def
      ncols_def eval_nat_numeral)

lemma has_line_4:
  "has_line 4 4 [[a0, a1, a2, a3], [b0, b1, b2, b3], [c0, c1, c2, c3], [d0, d1, d2, d3]] p \<longleftrightarrow>
     (a0 = p \<and> a1 = p \<and> a2 = p \<and> a3 = p) \<or> (b0 = p \<and> b1 = p \<and> b2 = p \<and> b3 = p) \<or>
     (c0 = p \<and> c1 = p \<and> c2 = p \<and> c3 = p) \<or> (d0 = p \<and> d1 = p \<and> d2 = p \<and> d3 = p) \<or>
     (a0 = p \<and> b0 = p \<and> c0 = p \<and> d0 = p) \<or> (a1 = p \<and> b1 = p \<and> c1 = p \<and> d1 = p) \<or>
     (a2 = p \<and> b2 = p \<and> c2 = p \<and> d2 = p) \<or> (a3 = p \<and> b3 = p \<and> c3 = p \<and> d3 = p) \<or>
     (a0 = p \<and> b1 = p \<and> c2 = p \<and> d3 = p) \<or> (a3 = p \<and> b2 = p \<and> c1 = p \<and> d0 = p)"
  unfolding has_line_def segments_4_4 by (simp add: owns_line_def disj_ac)

lemma c4_lines_pos:
  assumes "wf_board 4 b" "cells_ok b"
  shows "4 \<in> set (line_sums b) \<longleftrightarrow> has_line 4 4 b 1"
proof -
  from wf_board_4 [OF assms(1)]
  obtain a0 a1 a2 a3 b0 b1 b2 b3 c0 c1 c2 c3 d0 d1 d2 d3 where
    b: "b = [[a0, a1, a2, a3], [b0, b1, b2, b3], [c0, c1, c2, c3], [d0, d1, d2, d3]]" by blast
  have c: "(a0 = 0 \<or> a0 = 1 \<or> a0 = - 1)" "(a1 = 0 \<or> a1 = 1 \<or> a1 = - 1)"
     "(a2 = 0 \<or> a2 = 1 \<or> a2 = - 1)" "(a3 = 0 \<or> a3 = 1 \<or> a3 = - 1)"
     "(b0 = 0 \<or> b0 = 1 \<or> b0 = - 1)" "(b1 = 0 \<or> b1 = 1 \<or> b1 = - 1)"
     "(b2 = 0 \<or> b2 = 1 \<or> b2 = - 1)" "(b3 = 0 \<or> b3 = 1 \<or> b3 = - 1)"
     "(c0 = 0 \<or> c0 = 1 \<or> c0 = - 1)" "(c1 = 0 \<or> c1 = 1 \<or> c1 = - 1)"
     "(c2 = 0 \<or> c2 = 1 \<or> c2 = - 1)" "(c3 = 0 \<or> c3 = 1 \<or> c3 = - 1)"
     "(d0 = 0 \<or> d0 = 1 \<or> d0 = - 1)" "(d1 = 0 \<or> d1 = 1 \<or> d1 = - 1)"
     "(d2 = 0 \<or> d2 = 1 \<or> d2 = - 1)" "(d3 = 0 \<or> d3 = 1 \<or> d3 = - 1)"
    using assms(2) unfolding b cells_ok_4 by simp_all
  show ?thesis
    unfolding b line_sums_4 has_line_4
    by (simp add: sum4_pos c eq_commute [of "4::int"])
qed

lemma c4_lines_neg:
  assumes "wf_board 4 b" "cells_ok b"
  shows "- 4 \<in> set (line_sums b) \<longleftrightarrow> has_line 4 4 b (- 1)"
proof -
  from wf_board_4 [OF assms(1)]
  obtain a0 a1 a2 a3 b0 b1 b2 b3 c0 c1 c2 c3 d0 d1 d2 d3 where
    b: "b = [[a0, a1, a2, a3], [b0, b1, b2, b3], [c0, c1, c2, c3], [d0, d1, d2, d3]]" by blast
  have c: "(a0 = 0 \<or> a0 = 1 \<or> a0 = - 1)" "(a1 = 0 \<or> a1 = 1 \<or> a1 = - 1)"
     "(a2 = 0 \<or> a2 = 1 \<or> a2 = - 1)" "(a3 = 0 \<or> a3 = 1 \<or> a3 = - 1)"
     "(b0 = 0 \<or> b0 = 1 \<or> b0 = - 1)" "(b1 = 0 \<or> b1 = 1 \<or> b1 = - 1)"
     "(b2 = 0 \<or> b2 = 1 \<or> b2 = - 1)" "(b3 = 0 \<or> b3 = 1 \<or> b3 = - 1)"
     "(c0 = 0 \<or> c0 = 1 \<or> c0 = - 1)" "(c1 = 0 \<or> c1 = 1 \<or> c1 = - 1)"
     "(c2 = 0 \<or> c2 = 1 \<or> c2 = - 1)" "(c3 = 0 \<or> c3 = 1 \<or> c3 = - 1)"
     "(d0 = 0 \<or> d0 = 1 \<or> d0 = - 1)" "(d1 = 0 \<or> d1 = 1 \<or> d1 = - 1)"
     "(d2 = 0 \<or> d2 = 1 \<or> d2 = - 1)" "(d3 = 0 \<or> d3 = 1 \<or> d3 = - 1)"
    using assms(2) unfolding b cells_ok_4 by simp_all
  show ?thesis
    unfolding b line_sums_4 has_line_4
    by (simp add: sum4_neg c eq_commute [of "- 4::int"])
qed

lemma check_4x4_winner_iff:
  assumes "wf_board 4 b" "cells_ok b"
  shows "check_4x4_winner b = Some 1 \<longleftrightarrow> has_line 4 4 b 1"
    and "check_4x4_winner b = Some (- 1) \<longleftrightarrow> \<not> has_line 4 4 b 1 \<and> has_line 4 4 b (- 1)"
    and "check_4x4_winner b = None \<longleftrightarrow> \<not> has_line 4 4 b 1 \<and> \<not> has_line 4 4 b (- 1)"
  using c4_lines_pos [OF assms] c4_lines_neg [OF assms]
  by (simp_all add: check_4x4_winner_def Let_def)

lemma list5: "length xs = 5 \<Longrightarrow> \<exists>a b c d e. xs = [a, b, c, d, e]"
  by (cases xs; cases "tl xs"; cases "tl (tl xs)"; cases "tl (tl (tl xs))";
      cases "tl (tl (tl (tl xs)))") auto

lemma wf_board_5:
  assumes "wf_board 5 b"
  obtains a0 a1 a2 a3 a4 b0 b1 b2 b3 b4 c0 c1 c2 c3 c4 d0 d1 d2 d3 d4 e0 e1 e2 e3 e4
  where "b = [[a0, a1, a2, a3, a4], [b0, b1, b2, b3, b4], [c0, c1, c2, c3, c4], [d0, d1, d2, d3, d4], [e0, e1, e2, e3, e4]]"
proof -
  from assms obtain r0 r1 r2 r3 r4 where b: "b = [r0, r1, r2, r3, r4]"
    using list5 [of b] by (auto simp: wf_board_def)
  with assms have l: "length r0 = 5" "length r1 = 5" "length r2 = 5" "length r3 = 5"
    "length r4 = 5"
    by (simp_all add: wf_board_def)
  from list5 [OF l(1)] obtain a0 a1 a2 a3 a4 where r0: "r0 = [a0, a1, a2, a3, a4]" by blast
  from list5 [OF l(2)] obtain b0 b1 b2 b3 b4 where r1: "r1 = [b0, b1, b2, b3, b4]" by blast
  from list5 [OF l(3)] obtain c0 c1 c2 c3 c4 where r2: "r2 = [c0, c1, c2, c3, c4]" by blast
  from list5 [OF l(4)] obtain d0 d1 d2 d3 d4 where r3: "r3 = [d0, d1, d2, d3, d4]" by blast
  from list5 [OF l(5)] obtain e0 e1 e2 e3 e4 where r4: "r4 = [e0, e1, e2, e3, e4]" by blast
  show thesis by (rule that) (simp only: b r0 r1 r2 r3 r4)
qed

lemma segments_5_4:
  "segments 5 4 =
    [[(0, 0), (0, 1), (0, 2), (0, 3)],
     [(0, 0), (1, 0), (2, 0), (3, 0)],
     [(0, 0), (1, 1), (2, 2), (3, 3)],
     [(0, 3), (1, 2), (2, 1), (3, 0)],
     [(0, 1), (0, 2), (0, 3), (0, 4)],
     [(0, 1), (1, 1), (2, 1), (3, 1)],
     [(0, 1), (1, 2), (2, 3), (3, 4)],
     [(0, 4), (1, 3), (2, 2), (3, 1)],
     [(0, 2), (1, 2), (2, 2), (3, 2)],
     [(0, 3), (1, 3), (2, 3), (3, 3)],
     [(0, 4), (1, 4), (2, 4), (3, 4)],
     [(1, 0), (1, 1), (1, 2), (1, 3)],
     [(1, 0), (2, 0), (3, 0), (4, 0)],
     [(1, 0), (2, 1), (3, 2), (4, 3)],
     [(1, 3), (2, 2), (3, 1), (4, 0)],
     [(1, 1), (1, 2), (1, 3), (1, 4)],
     [(1, 1), (2, 1), (3, 1), (4, 1)],
     [(1, 1), (2, 2), (3, 3), (4, 4)],
     [(1, 4), (2, 3), (3, 2), (4, 1)],
     [(1, 2), (2, 2), (3, 2), (4, 2)],
     [(1, 3), (2, 3), (3, 3), (4, 3)],
     [(1, 4), (2, 4), (3, 4), (4, 4)],
     [(2, 0), (2, 1), (2, 2), (2, 3)],
     [(2, 1), (2, 2), (2, 3), (2, 4)],
     [(3, 0), (3, 1), (3, 2), (3, 3)],
     [(3, 1), (3, 2), (3, 3), (3, 4)],
     [(4, 0), (4, 1), (4, 2), (4, 3)],
     [(4, 1), (4, 2), (4, 3), (4, 4)]]"
  by code_simp

lemma windows_5:
  "np_window4 [[a0, a1, a2, a3, a4], [b0, b1, b2, b3, b4], [c0, c1, c2, c3, c4], [d0, d1, d2, d3, d4], [e0, e1, e2, e3, e4]] 0 0
     = [[a0, a1, a2, a3], [b0, b1, b2, b3], [c0, c1, c2, c3], [d0, d1, d2, d3]]"
  "np_window4 [[a0, a1, a2, a3, a4], [b0, b1, b2, b3, b4], [c0, c1, c2, c3, c4], [d0, d1, d2, d3, d4], [e0, e1, e2, e3, e4]] 0 1
     = [[a1, a2, a3, a4], [b1, b2, b3, b4], [c1, c2, c3, c4], [d1, d2, d3, d4]]"
  "np_window4 [[a0, a1, a2, a3, a4], [b0, b1, b2, b3, b4], [c0, c1, c2, c3, c4], [d0, d1, d2, d3, d4], [e0, e1, e2, e3, e4]] 1 0
     = [[b0, b1, b2, b3], [c0, c1, c2, c3], [d0, d1, d2, d3], [e0, e1, e2, e3]]"
  "np_window4 [[a0, a1, a2, a3, a4], [b0, b1, b2, b3, b4], [c0, c1, c2, c3, c4], [d0, d1, d2, d3, d4], [e0, e1, e2, e3, e4]] 1 1
     = [[b1, b2, b3, b4], [c1, c2, c3, c4], [d1, d2, d3, d4], [e1, e2, e3, e4]]"
  by (simp_all add: np_window4_def)

lemma window_lines:
  assumes "wf_board 5 b"
  shows "has_line 5 4 b p \<longleftrightarrow>
           has_line 4 4 (np_window4 b 0 0) p \<or> has_line 4 4 (np_window4 b 0 1) p \<or>
           has_line 4 4 (np_window4 b 1 0) p \<or> has_line 4 4 (np_window4 b 1 1) p"
proof -
  obtain a0 a1 a2 a3 a4 b0 b1 b2 b3 b4 c0 c1 c2 c3 c4 d0 d1 d2 d3 d4 e0 e1 e2 e3 e4 where
    b: "b = [[a0, a1, a2, a3, a4], [b0, b1, b2, b3, b4], [c0, c1, c2, c3, c4], [d0, d1, d2, d3, d4], [e0, e1, e2, e3, e4]]"
    by (rule wf_board_5 [OF assms])
  show ?thesis
    unfolding b windows_5 has_line_4
    unfolding has_line_def segments_5_4
    by (simp add: owns_line_def disj_ac)
qed

lemma window_wf:
  assumes "wf_board 5 b" "r0 \<le> 1" "c0 \<le> 1"
  shows "wf_board 4 (np_window4 b r0 c0)"
  using assms unfolding wf_board_def np_window4_def
  by (auto dest!: in_set_takeD in_set_dropD)

lemma window_cells_ok:
  assumes "cells_ok b"
  shows "cells_ok (np_window4 b r0 c0)"
  using assms unfolding cells_ok_def np_window4_def
  by (auto dest!: in_set_takeD in_set_dropD)

lemma first_window_winner_Some:
  "first_window_winner b ws = Some q \<Longrightarrow>
     \<exists>w \<in> set ws. check_4x4_winner (np_window4 b (fst w) (snd w)) = Some q"
proof (induction ws)
  case Nil
  then show ?case by simp
next
  case (Cons w ws)
  obtain r c where w: "w = (r, c)" by (cases w)
  show ?case
    using Cons by (cases "check_4x4_winner (np_window4 b r c)") (auto simp: w)
qed

lemma first_window_winner_None:
  "first_window_winner b ws = None \<longleftrightarrow>
     (\<forall>w \<in> set ws. check_4x4_winner (np_window4 b (fst w) (snd w)) = None)"
proof (induction ws)
  case Nil
  show ?case by simp
next
  case (Cons w ws)
  obtain r c where w: "w = (r, c)" by (cases w)
  show ?case
    using Cons by (cases "check_4x4_winner (np_window4 b r c)") (auto simp: w)
qed

lemma offsets_5:
  "concat (map (\<lambda>row_offset. map (\<lambda>col_offset. (row_offset, col_offset)) [0..<2]) [0..<2])
     = [(0, 0), (0, 1), (1, 0), (1, Suc 0 :: nat)]"
  by (simp add: eval_nat_numeral)

lemma c4_winner_line:
  assumes n: "n = 4 \<or> n = 5" and wf: "wf_board n b" and ok: "cells_ok b"
    and w: "c4_check_winner n b = Some q"
  shows "has_line n 4 b q"
proof -
  have q: "q = 1 \<or> q = - 1" using c4_check_winner_cases [of n b] w by auto
  show ?thesis
  proof (cases "n = 4")
    case True
    then have "check_4x4_winner b = Some q" using w by (simp add: c4_check_winner_def)
    then show ?thesis
      using check_4x4_winner_iff [of b] wf ok True q by auto
  next
    case False
    then have n5: "n = 5" using n by simp
    then have "first_window_winner b [(0, 0), (0, 1), (1, 0), (1, Suc 0)] = Some q"
      using w by (simp add: c4_check_winner_def offsets_5)
    from first_window_winner_Some [OF this] obtain r0 c0 where
      rc: "r0 \<le> 1" "c0 \<le> 1" "(r0, c0) \<in> {(0, 0), (0, 1), (1, 0), (1, 1)}" and
      ch: "check_4x4_winner (np_window4 b r0 c0) = Some q"
      by auto
    have wf5: "wf_board 5 b" using wf n5 by simp
    have "has_line 4 4 (np_window4 b r0 c0) q"
      using check_4x4_winner_iff [OF window_wf [OF wf5 rc(1,2)] window_cells_ok [OF ok]] ch q
      by auto
    then show ?thesis
      unfolding n5 window_lines [OF wf5] using rc(3) by auto
  qed
qed

lemma c4_winner_none:
  assumes n: "n = 4 \<or> n = 5" and wf: "wf_board n b" and ok: "cells_ok b"
  shows "c4_check_winner n b = None \<longleftrightarrow> \<not> has_line n 4 b 1 \<and> \<not> has_line n 4 b (- 1)"
proof (cases "n = 4")
  case True
  then show ?thesis
    using check_4x4_winner_iff(3) [of b] wf ok by (simp add: c4_check_winner_def)
next
  case False
  then have n5: "n = 5" using n by simp
  have wf5: "wf_board 5 b" using wf n5 by simp
  have w: "check_4x4_winner (np_window4 b r0 c0) = None \<longleftrightarrow>
             \<not> has_line 4 4 (np_window4 b r0 c0) 1 \<and> \<not> has_line 4 4 (np_window4 b r0 c0) (- 1)"
    if "r0 \<le> 1" "c0 \<le> 1" for r0 c0
    using check_4x4_winner_iff(3) [OF window_wf [OF wf5 that] window_cells_ok [OF ok]] .
  have "c4_check_winner n b = None \<longleftrightarrow>
          check_4x4_winner (np_window4 b 0 0) = None \<and> check_4x4_winner (np_window4 b 0 1) = None \<and>
          check_4x4_winner (np_window4 b 1 0) = None \<and> check_4x4_winner (np_window4 b 1 1) = None"
  proof -
    have "c4_check_winner 5 b = first_window_winner b [(0, 0), (0, 1), (1, 0), (1, Suc 0)]"
      by (simp add: c4_check_winner_def offsets_5)
    then show ?thesis
      unfolding n5 by (simp only: first_window_winner_None) simp
  qed
  also have "\<dots> \<longleftrightarrow> \<not> has_line 5 4 b 1 \<and> \<not> has_line 5 4 b (- 1)"
    unfolding window_lines [OF wf5] using w [of 0 0] w [of 0 1] w [of 1 0] w [of 1 1] by auto
  finally show ?thesis unfolding n5 .
qed

lemma c4_winner_iff:
  assumes n: "n = 4 \<or> n = 5" and inv: "board_inv n 4 (b, cur)" and p: "p = 1 \<or> p = - 1"
  shows "c4_check_winner n b = Some p \<longleftrightarrow> has_line n 4 b p"
proof
  assume "c4_check_winner n b = Some p"
  then show "has_line n 4 b p"
    using c4_winner_line [OF n] inv by (simp add: board_inv_def)
next
  assume h: "has_line n 4 b p"
  have wf: "wf_board n b" and ok: "cells_ok b"
    and nb: "\<not> (has_line n 4 b 1 \<and> has_line n 4 b (- 1))"
    using inv by (simp_all add: board_inv_def)
  have "c4_check_winner n b \<noteq> None"
    using c4_winner_none [OF n wf ok] h p by auto
  then obtain q where q: "c4_check_winner n b = Some q" by auto
  then have "has_line n 4 b q" using c4_winner_line [OF n wf ok] by simp
  moreover have "q = 1 \<or> q = - 1" using c4_check_winner_cases [of n b] q by auto
  ultimately have "q = p" using h nb p by auto
  then show "c4_check_winner n b = Some p" using q by simp
qed

lemma ttt_winner_iff_inv:
  assumes inv: "board_inv 3 3 (b, cur)" and p: "p = 1 \<or> p = - 1"
  shows "ttt_check_winner b = Some p \<longleftrightarrow> has_line 3 3 b p"
proof -
  have wf: "wf_board 3 b" and ok: "cells_ok b"
    and nb: "\<not> (has_line 3 3 b 1 \<and> has_line 3 3 b (- 1))"
    using inv by (simp_all add: board_inv_def)
  show ?thesis
    using ttt_winner_iff(1,2) [OF wf ok] nb p by auto
qed

lemma c4_initial_inv:
  assumes "n = 4 \<or> n = 5"
  shows "board_inv n 4 (initial_state (connectfour_game n))"
proof -
  have "\<not> has_line 4 4 (np_zeros 4 4) 1" "\<not> has_line 5 4 (np_zeros 5 5) 1" by code_simp+
  then have "\<not> has_line n 4 (np_zeros n n) 1" using assms by auto
  moreover have "wf_board n (np_zeros n n)" "cells_ok (np_zeros n n)"
    by (simp_all add: wf_board_def cells_ok_def np_zeros_def)
  ultimately show ?thesis by (simp add: board_inv_def connectfour_game_def)
qed

lemma c4_reachable_inv:
  assumes n: "n = 4 \<or> n = 5"
  shows "reachable (connectfour_game n) s \<Longrightarrow> c4_inv n s \<and> board_inv n 4 s"
proof (induction rule: reachable.induct)
  case reachable_initial
  show ?case using c4_initial_inv [OF n] c4_inv_initial by blast
next
  case (reachable_step s a s')
  obtain b cur where s: "s = (b, cur)" by (cases s)
  have ci: "c4_inv n (b, cur)" and inv: "board_inv n 4 (b, cur)"
    using reachable_step.IH by (simp_all add: s)
  then have wf: "wf_board n b" and ok: "cells_ok b" by (simp_all add: board_inv_def)
  have a: "a \<in> set (c4_actions n (b, cur))"
    using reachable_step.hyps(2) by (simp add: connectfour_game_def s)
  then have "\<not> c4_is_terminal n (b, cur)" by (auto simp: c4_actions_def split: if_splits)
  then have "c4_check_winner n b = None" by (auto simp: c4_is_terminal_def split: if_splits)
  then have none: "\<not> has_line n 4 b 1" "\<not> has_line n 4 b (- 1)"
    using c4_winner_none [OF n wf ok] by simp_all
  from c4_next_legal [OF ci a] obtain r c where
    rc: "r < n" "c < n" and
    nx: "c4_next n (b, cur) a = Inr (b[r := (b ! r)[c := cur]], - cur)"
    by blast
  have s': "s' = (b[r := (b ! r)[c := cur]], - cur)"
    using nx reachable_step.hyps(3) by (simp add: connectfour_game_def s)
  have "c4_inv n s'"
    using c4_well_behaved [of n] ci reachable_step.hyps(2,3) unfolding well_behaved_def s
    by fastforce
  moreover have "board_inv n 4 s'"
    unfolding s' using board_inv_place [OF inv none rc] .
  ultimately show ?case by simp
qed

lemma run_moves_reachable:
  "reachable g (state sess) \<Longrightarrow> run_moves g sess acts = Inr sess' \<Longrightarrow>
     reachable g (state sess')"
proof (induction acts arbitrary: sess)
  case Nil
  then show ?case by simp
next
  case (Cons a acts)
  from Cons.prems(2) have a: "a \<in> set (actions g (state sess))"
    by (auto simp: move_def split: if_splits)
  with Cons.prems(2) obtain s' where
    nx: "next_state g (state sess) a = Inr s'" and
    run: "run_moves g (sess\<lparr>state := s', current_player := player g s'\<rparr>) acts = Inr sess'"
    by (auto simp: move_def split: sum.splits)
  have "reachable g s'" using reachable_step [OF Cons.prems(1) a nx] .
  then show ?case using Cons.IH [OF _ run] by simp
qed

lemma run_reachable:
  "run_moves g (new_session g) acts = Inr sess' \<Longrightarrow> reachable g (state sess')"
  using run_moves_reachable [of g "new_session g"] reachable_initial [of g]
  by (simp add: new_session_def)

lemma ttt_win_exact:
  assumes r: "reachable TicTacToeGame ts" and p: "p = 1 \<or> p = - 1"
  shows "ttt_check_winner (fst ts) = Some p \<longleftrightarrow> has_line 3 3 (fst ts) p"
    and "has_line 3 3 (fst ts) p \<longrightarrow>
           ttt_is_terminal ts \<and> ttt_utility ts p = 1 \<and> ttt_utility ts (- p) = - 1"
    and "ttt_utility ts p = 1 \<longrightarrow> has_line 3 3 (fst ts) p"
proof -
  obtain b cur where s: "ts = (b, cur)" by (cases ts)
  have inv: "board_inv 3 3 (b, cur)" using ttt_reachable_inv [OF r] by (simp add: s)
  show iff: "ttt_check_winner (fst ts) = Some p \<longleftrightarrow> has_line 3 3 (fst ts) p"
    using ttt_winner_iff_inv [OF inv p] by (simp add: s)
  show "has_line 3 3 (fst ts) p \<longrightarrow>
           ttt_is_terminal ts \<and> ttt_utility ts p = 1 \<and> ttt_utility ts (- p) = - 1"
    using iff p by (auto simp: ttt_utility_def ttt_is_terminal_def)
  show "ttt_utility ts p = 1 \<longrightarrow> has_line 3 3 (fst ts) p"
    using iff by (auto simp: ttt_utility_def split: if_splits option.splits)
qed

lemma c4_win_exact:
  assumes n: "n = 4 \<or> n = 5" and r: "reachable (connectfour_game n) cs"
    and p: "p = 1 \<or> p = - 1"
  shows "c4_check_winner n (fst cs) = Some p \<longleftrightarrow> has_line n 4 (fst cs) p"
    and "has_line n 4 (fst cs) p \<longrightarrow>
           c4_is_terminal n cs \<and> c4_utility n cs p = 1 \<and> c4_utility n cs (- p) = - 1"
    and "c4_utility n cs p = 1 \<longrightarrow> has_line n 4 (fst cs) p"
proof -
  obtain b cur where s: "cs = (b, cur)" by (cases cs)
  have inv: "board_inv n 4 (b, cur)" using c4_reachable_inv [OF n r] by (simp add: s)
  show iff: "c4_check_winner n (fst cs) = Some p \<longleftrightarrow> has_line n 4 (fst cs) p"
    using c4_winner_iff [OF n inv p] by (simp add: s)
  show "has_line n 4 (fst cs) p \<longrightarrow>
           c4_is_terminal n cs \<and> c4_utility n cs p = 1 \<and> c4_utility n cs (- p) = - 1"
    using iff p by (auto simp: c4_utility_def c4_is_terminal_def)
  show "c4_utility n cs p = 1 \<longrightarrow> has_line n 4 (fst cs) p"
    using iff by (auto simp: c4_utility_def split: if_splits option.splits)
qed

lemma c4_windows_exact:
  assumes r: "reachable (connectfour_game 5) cs" and p: "p = 1 \<or> p = - 1"
  shows "c4_check_winner 5 (fst cs) = Some p \<longleftrightarrow>
           (\<exists>r0 \<in> {0, 1}. \<exists>c0 \<in> {0, 1}. check_4x4_winner (np_window4 (fst cs) r0 c0) = Some p)"
proof
  assume "c4_check_winner 5 (fst cs) = Some p"
  then have "first_window_winner (fst cs) [(0, 0), (0, 1), (1, 0), (1, Suc 0)] = Some p"
    by (simp add: c4_check_winner_def offsets_5)
  from first_window_winner_Some [OF this]
  show "\<exists>r0 \<in> {0, 1}. \<exists>c0 \<in> {0, 1}. check_4x4_winner (np_window4 (fst cs) r0 c0) = Some p"
    by auto
next
  assume "\<exists>r0 \<in> {0, 1}. \<exists>c0 \<in> {0, 1}. check_4x4_winner (np_window4 (fst cs) r0 c0) = Some p"
  then obtain r0 c0 where rc: "r0 \<le> 1" "c0 \<le> 1" "(r0 = 0 \<or> r0 = 1) \<and> (c0 = 0 \<or> c0 = 1)"
    and ch: "check_4x4_winner (np_window4 (fst cs) r0 c0) = Some p"
    by auto
  obtain b cur where s: "cs = (b, cur)" by (cases cs)
  have inv: "board_inv 5 4 (b, cur)"
    using c4_reachable_inv [of 5, OF _ r] by (simp add: s)
  then have wf: "wf_board 5 b" and ok: "cells_ok b" by (simp_all add: board_inv_def)
  have "has_line 4 4 (np_window4 b r0 c0) p"
    using check_4x4_winner_iff [OF window_wf [OF wf rc(1,2)] window_cells_ok [OF ok]] ch p
    by (auto simp: s)
  then have "has_line 5 4 b p"
    unfolding window_lines [OF wf] using rc(3) by auto
  then show "c4_check_winner 5 (fst cs) = Some p"
    using c4_winner_iff [of 5, OF _ inv p] by (simp add: s)
qed

lemma ttt_win_run:
  "run_moves TicTacToeGame (new_session TicTacToeGame) [(0, 0), (1, 0), (0, 1), (1, 1), (0, 2)]
     = Inr \<lparr>state = ([[1, 1, 1], [- 1, - 1, 0], [0, 0, 0]], - 1), current_player = - 1\<rparr>"
  by code_simp

lemma c4_win_run_4:
  "run_moves (connectfour_game 4) (new_session (connectfour_game 4)) [0, 1, 0, 1, 0, 1, 0]
     = Inr \<lparr>state = ([[1, 0, 0, 0], [1, - 1, 0, 0], [1, - 1, 0, 0], [1, - 1, 0, 0]], - 1),
            current_player = - 1\<rparr>"
  by code_simp

lemma c4_win_run_5:
  "run_moves (connectfour_game 5) (new_session (connectfour_game 5)) [0, 1, 0, 1, 0, 1, 0]
     = Inr \<lparr>state = ([[0, 0, 0, 0, 0], [1, 0, 0, 0, 0], [1, - 1, 0, 0, 0], [1, - 1, 0, 0, 0], [1, - 1, 0, 0, 0]], - 1),
            current_player = - 1\<rparr>"
  by code_simp

lemma win_lines:
  "has_line 3 3 [[1, 1, 1], [- 1, - 1, 0], [0, 0, 0]] 1"
  "has_line 4 4 [[1, 0, 0, 0], [1, - 1, 0, 0], [1, - 1, 0, 0], [1, - 1, 0, 0]] 1"
  "check_4x4_winner (np_window4 [[0, 0, 0, 0, 0], [1, 0, 0, 0, 0], [1, - 1, 0, 0, 0], [1, - 1, 0, 0, 0], [1, - 1, 0, 0, 0]] 1 0) = Some 1"
  by code_simp+

text \<open>
  Claim C3. On every board that legal moves reach from the initial state, and for each
  player \<open>p\<close> of \<open>1\<close> and \<open>-1\<close>: Tic-Tac-Toe's \<open>_check_winner\<close> returns \<open>p\<close> exactly when \<open>p\<close>
  owns a row, a column or a diagonal of three cells, and Connect Four's, on the boards of
  size 4 and 5, exactly when \<open>p\<close> owns four consecutive cells in a row, a column or
  a diagonal direction. A player who owns such a line has the utility \<open>1\<close> in a state that
  is terminal, the other player has \<open>-1\<close>, and the utility \<open>1\<close> is given for nothing less
  than a full line. On the board of size 5 the winner is reported exactly when one of the
  four windows of size 4 at the row and column offsets \<open>0\<close> and \<open>1\<close> has it as its winner.
\<close>

theorem win_detection_exact:
  "(reachable TicTacToeGame ts \<and> (p = 1 \<or> p = - 1) \<longrightarrow>
      (ttt_check_winner (fst ts) = Some p \<longleftrightarrow> has_line 3 3 (fst ts) p)
      \<and> (has_line 3 3 (fst ts) p \<longrightarrow>
            ttt_is_terminal ts \<and> ttt_utility ts p = 1 \<and> ttt_utility ts (- p) = - 1)
      \<and> (ttt_utility ts p = 1 \<longrightarrow> has_line 3 3 (fst ts) p))
   \<and> ((n = 4 \<or> n = 5) \<and> reachable (connectfour_game n) cs \<and> (p = 1 \<or> p = - 1) \<longrightarrow>
      (c4_check_winner n (fst cs) = Some p \<longleftrightarrow> has_line n 4 (fst cs) p)
      \<and> (has_line n 4 (fst cs) p \<longrightarrow>
            c4_is_terminal n cs \<and> c4_utility n cs p = 1 \<and> c4_utility n cs (- p) = - 1)
      \<and> (c4_utility n cs p = 1 \<longrightarrow> has_line n 4 (fst cs) p))
   \<and> (reachable (connectfour_game 5) cs5 \<and> (p = 1 \<or> p = - 1) \<longrightarrow>
      (c4_check_winner 5 (fst cs5) = Some p \<longleftrightarrow>
         (\<exists>r0 \<in> {0, 1}. \<exists>c0 \<in> {0, 1}.
            check_4x4_winner (np_window4 (fst cs5) r0 c0) = Some p)))"
  using ttt_win_exact [of ts p] c4_win_exact [of n cs p] c4_windows_exact [of cs5 p]
  by blast

theorem win_detection_exact_witness:
  "reachable TicTacToeGame ([[1, 1, 1], [- 1, - 1, 0], [0, 0, 0]], - 1)
   \<and> has_line 3 3 [[1, 1, 1], [- 1, - 1, 0], [0, 0, 0]] 1
   \<and> ttt_check_winner [[1, 1, 1], [- 1, - 1, 0], [0, 0, 0]] = Some 1
   \<and> ttt_is_terminal ([[1, 1, 1], [- 1, - 1, 0], [0, 0, 0]], - 1)
   \<and> ttt_utility ([[1, 1, 1], [- 1, - 1, 0], [0, 0, 0]], - 1) 1 = 1
   \<and> ttt_utility ([[1, 1, 1], [- 1, - 1, 0], [0, 0, 0]], - 1) (- 1) = - 1
   \<and> reachable (connectfour_game 4) ([[1, 0, 0, 0], [1, - 1, 0, 0], [1, - 1, 0, 0], [1, - 1, 0, 0]], - 1)
   \<and> has_line 4 4 [[1, 0, 0, 0], [1, - 1, 0, 0], [1, - 1, 0, 0], [1, - 1, 0, 0]] 1
   \<and> c4_check_winner 4 [[1, 0, 0, 0], [1, - 1, 0, 0], [1, - 1, 0, 0], [1, - 1, 0, 0]] = Some 1
   \<and> c4_utility 4 ([[1, 0, 0, 0], [1, - 1, 0, 0], [1, - 1, 0, 0], [1, - 1, 0, 0]], - 1) 1 = 1
   \<and> reachable (connectfour_game 5)
         ([[0, 0, 0, 0, 0], [1, 0, 0, 0, 0], [1, - 1, 0, 0, 0], [1, - 1, 0, 0, 0], [1, - 1, 0, 0, 0]], - 1)
   \<and> check_4x4_winner
         (np_window4 [[0, 0, 0, 0, 0], [1, 0, 0, 0, 0], [1, - 1, 0, 0, 0], [1, - 1, 0, 0, 0], [1, - 1, 0, 0, 0]] 1 0)
       = Some 1
   \<and> c4_check_winner 5 [[0, 0, 0, 0, 0], [1, 0, 0, 0, 0], [1, - 1, 0, 0, 0], [1, - 1, 0, 0, 0], [1, - 1, 0, 0, 0]]
       = Some 1"
proof -
  have r3: "reachable TicTacToeGame ([[1, 1, 1], [- 1, - 1, 0], [0, 0, 0]], - 1)"
    using run_reachable [OF ttt_win_run] by simp
  have r4: "reachable (connectfour_game 4) ([[1, 0, 0, 0], [1, - 1, 0, 0], [1, - 1, 0, 0], [1, - 1, 0, 0]], - 1)"
    using run_reachable [OF c4_win_run_4] by simp
  have r5: "reachable (connectfour_game 5)
         ([[0, 0, 0, 0, 0], [1, 0, 0, 0, 0], [1, - 1, 0, 0, 0], [1, - 1, 0, 0, 0], [1, - 1, 0, 0, 0]], - 1)"
    using run_reachable [OF c4_win_run_5] by simp
  have m: "(0::nat) \<in> {0, 1}" "(1::nat) \<in> {0, 1}" by simp_all
  show ?thesis
    using win_detection_exact [of "([[1, 1, 1], [- 1, - 1, 0], [0, 0, 0]], - 1)" 1 4
        "([[1, 0, 0, 0], [1, - 1, 0, 0], [1, - 1, 0, 0], [1, - 1, 0, 0]], - 1)"
        "([[0, 0, 0, 0, 0], [1, 0, 0, 0, 0], [1, - 1, 0, 0, 0], [1, - 1, 0, 0, 0], [1, - 1, 0, 0, 0]], - 1)"]
      r3 r4 r5 win_lines m
    by (simp del: One_nat_def)
qed

end
